theory Spec2Isabelle
  imports Main "HOL-Library.AList" "HOL-Library.Sublist" "HOL-Library.Multiset"
    "HOL-Library.Word"
begin

section \<open>Strings\<close>

text \<open>
  A JavaScript string is a sequence of UTF-16 code units, each a 16-bit word, so that
  \<^const>\<open>length\<close> is the \<open>.length\<close> of the source and every string of the language has
  its model. \<open>js\<close> writes a string literal of the source: the code units of its
  (ASCII) characters.
\<close>

type_synonym code_unit = "16 word"

type_synonym js_string = "code_unit list"

definition js :: "string \<Rightarrow> js_string" where
  "js s = map (\<lambda>c. of_nat (of_char c)) s"

lemma js_Nil [simp]: "js [] = []"
  by (simp add: js_def)

lemma js_Cons [simp]: "js (c # cs) = of_nat (of_char c) # js cs"
  by (simp add: js_def)

text \<open>
  The white space of \<open>String.prototype.trim\<close> and of the regular expression class \<open>\s\<close>:
  the code units of \<open>WhiteSpace\<close> and \<open>LineTerminator\<close> of ECMAScript. These are TAB, LF,
  VT, FF, CR, SPACE, NBSP (U+00A0), U+1680, U+2000 to U+200A, the line and paragraph
  separators U+2028 and U+2029, U+202F, U+205F, U+3000 and the byte order mark U+FEFF.
\<close>

definition js_whitespace :: "code_unit \<Rightarrow> bool" where
  "js_whitespace c =
     (c \<in> set [0x09, 0x0A, 0x0B, 0x0C, 0x0D, 0x20, 0xA0, 0x1680,
                0x2000, 0x2001, 0x2002, 0x2003, 0x2004, 0x2005, 0x2006, 0x2007, 0x2008,
                0x2009, 0x200A, 0x2028, 0x2029, 0x202F, 0x205F, 0x3000, 0xFEFF])"

definition js_trim :: "js_string \<Rightarrow> js_string" where
  "js_trim s = rev (dropWhile js_whitespace (rev (dropWhile js_whitespace s)))"

definition js_startsWith :: "js_string \<Rightarrow> js_string \<Rightarrow> bool" where
  "js_startsWith s p = prefix p s"

fun js_includes :: "js_string \<Rightarrow> js_string \<Rightarrow> bool" where
  "js_includes [] sub = (sub = [])"
| "js_includes (c # cs) sub = (prefix sub (c # cs) \<or> js_includes cs sub)"

text \<open>The class \<open>\d\<close>: the code units of \<open>0\<close> to \<open>9\<close>.\<close>

definition is_digit :: "code_unit \<Rightarrow> bool" where
  "is_digit c = (c \<in> set (js ''0123456789''))"

text \<open>
  \<open>Number.parseInt(index, 10)\<close> on a string of decimal digits, as a natural number. The
  source compares the result with the length of an array only; the floating-point value
  of a literal too long to be exact, like the natural number, exceeds every array length.
\<close>

definition digit_val :: "code_unit \<Rightarrow> nat" where
  "digit_val c = unat c - 48"

definition parseInt :: "js_string \<Rightarrow> nat" where
  "parseInt ds = foldl (\<lambda>a c. 10 * a + digit_val c) 0 ds"

section \<open>Placeholder substitution\<close>

text \<open>
  The regular expression \<open>/\${(\d+)}/g\<close> of \<open>replaceIndexedInputs\<close>: a match at the head
  of a string is \<open>${\<close>, the longest run of digits (at least one), and \<open>}\<close>.
  \<open>match_placeholder\<close> returns the digits and the text after the match. The code units
  of \<open>$\<close>, \<open>{\<close> and \<open>}\<close> are 0x24, 0x7B and 0x7D.
\<close>

definition match_digits :: "js_string \<Rightarrow> (js_string \<times> js_string) option" where
  "match_digits r =
     (case dropWhile is_digit r of
        c3 # r' \<Rightarrow>
          if takeWhile is_digit r \<noteq> [] \<and> c3 = 0x7D
          then Some (takeWhile is_digit r, r') else None
      | [] \<Rightarrow> None)"

fun match_placeholder :: "js_string \<Rightarrow> (js_string \<times> js_string) option" where
  "match_placeholder (c1 # c2 # r) =
     (if c1 = 0x24 \<and> c2 = 0x7B then match_digits r else None)"
| "match_placeholder _ = None"

text \<open>The replacement callback: the 1-based index selects a parent output.\<close>

definition indexedInput :: "js_string \<Rightarrow> js_string list \<Rightarrow> js_string" where
  "indexedInput index parentOutputs =
     (let adjustedIndex = int (parseInt index) - 1
      in if adjustedIndex \<ge> 0 \<and> adjustedIndex < int (length parentOutputs)
         then parentOutputs ! nat adjustedIndex
         else [])"

lemma match_digits_Some:
  assumes "match_digits r = Some (ds, rest)"
  shows "r = ds @ 0x7D # rest" and "ds \<noteq> []" and "list_all is_digit ds"
proof -
  from assms have d: "dropWhile is_digit r = 0x7D # rest"
    and t: "takeWhile is_digit r = ds" and ne: "ds \<noteq> []"
    by (auto simp: match_digits_def split: list.splits if_splits)
  have "r = takeWhile is_digit r @ dropWhile is_digit r" by simp
  with d t show "r = ds @ 0x7D # rest" by simp
  show "ds \<noteq> []" by (rule ne)
  show "list_all is_digit ds"
    unfolding list_all_iff t[symmetric] by (blast dest: set_takeWhileD)
qed

lemma match_placeholder_Some:
  assumes "match_placeholder s = Some (ds, rest)"
  shows "s = js ''${'' @ ds @ js ''}'' @ rest" and "ds \<noteq> []" and "list_all is_digit ds"
proof -
  from assms obtain r where s: "s = 0x24 # 0x7B # r"
    and m: "match_digits r = Some (ds, rest)"
    by (cases s rule: match_placeholder.cases) (auto split: if_splits)
  from match_digits_Some[OF m] s
  show "s = js ''${'' @ ds @ js ''}'' @ rest" and "ds \<noteq> []" and "list_all is_digit ds"
    by simp_all
qed

lemma match_placeholder_shorter:
  "match_placeholder s = Some (ds, rest) \<Longrightarrow> length rest < length s"
  by (drule match_placeholder_Some(1)) simp

function replaceIndexedInputs :: "js_string \<Rightarrow> js_string list \<Rightarrow> js_string" where
  "replaceIndexedInputs [] parentOutputs = []"
| "replaceIndexedInputs (c # cs) parentOutputs =
     (case match_placeholder (c # cs) of
        Some (index, rest) \<Rightarrow>
          indexedInput index parentOutputs @ replaceIndexedInputs rest parentOutputs
      | None \<Rightarrow> c # replaceIndexedInputs cs parentOutputs)"
  by pat_completeness auto
termination
  by (relation "measure (\<lambda>(s, _). length s)")
     (auto dest: match_placeholder_shorter)

declare replaceIndexedInputs.simps(2) [simp del]

section \<open>Nodes, edges and the edge index\<close>

text \<open>
  Modelled from the spec: the enumeration \<open>NodeType\<close> (declared in the webview's
  \<open>nodes/Nodes\<close> module, which is not among the sources). The specification names five
  kinds: CLI, LLM, Preview, Input and Search-Context. The kind of a node is a string at
  run time (the tests write \<open>'preview' as NodeType\<close>), so a value outside the
  enumeration is possible, and the \<open>default\<close> branch of the orchestrator handles it:
  \<open>OTHER\<close> carries it.
\<close>

datatype NodeType = CLI | LLM | PREVIEW | INPUT | SEARCH_CONTEXT | OTHER js_string

text \<open>
  Modelled from the spec: the node types \<open>WorkflowNodes\<close>, \<open>CLINode\<close> and \<open>LLMNode\<close> (same
  module). These are the fields of \<open>node.data\<close> that the executor reads: the free-text
  \<open>content\<close>, the optional \<open>active\<close> flag and the optional \<open>needsUserApproval\<close> flag.
  \<open>content\<close> and \<open>active\<close> may be absent (\<open>undefined\<close>); \<open>needsUserApproval\<close> is only
  tested for truthiness. The generation parameters of an LLM node (\<open>maxTokens\<close>,
  \<open>temperature\<close>, \<open>fast\<close>) are handed to the chat client untouched.
\<close>

record NodeData =
  title :: js_string
  content :: "js_string option"
  active :: "bool option"
  needsUserApproval :: bool

text \<open>
  Modelled from the spec: a node has an identity \<open>id\<close>, a \<open>type\<close> and its \<open>data\<close>.
\<close>

record WorkflowNode =
  node_id :: js_string
  node_type :: NodeType
  data :: NodeData

text \<open>
  Modelled from the spec: the type \<open>Edge\<close> (declared in the webview's
  \<open>CustomOrderedEdge\<close> module, which is not among the sources): an \<open>id\<close>, a \<open>source\<close>
  node identifier and a \<open>target\<close> node identifier.
\<close>

record Edge =
  edge_id :: js_string
  source :: js_string
  target :: js_string

text \<open>
  A JavaScript \<open>Map\<close> is an association list in insertion order: \<open>get\<close> is
  \<^const>\<open>map_of\<close> and \<open>set\<close> is \<^const>\<open>AList.update\<close>, which overwrites the value of a
  key that is present and appends a new key.
\<close>

type_synonym ('k, 'v) js_map = "('k \<times> 'v) list"

record IndexedEdges =
  bySource :: "(js_string, Edge list) js_map"
  byTarget :: "(js_string, Edge list) js_map"
  byId :: "(js_string, Edge) js_map"

text \<open>\<open>map.get(key) || []\<close>\<close>

definition get_or_empty :: "(js_string, 'a list) js_map \<Rightarrow> js_string \<Rightarrow> 'a list" where
  "get_or_empty m k = (case map_of m k of Some es \<Rightarrow> es | None \<Rightarrow> [])"

text \<open>The body of the loop of \<open>createEdgeIndex\<close>.\<close>

definition index_edge :: "IndexedEdges \<Rightarrow> Edge \<Rightarrow> IndexedEdges" where
  "index_edge idx edge =
     (let sourceEdges = get_or_empty (bySource idx) (source edge) @ [edge];
          targetEdges = get_or_empty (byTarget idx) (target edge) @ [edge]
      in \<lparr> bySource = AList.update (source edge) sourceEdges (bySource idx),
           byTarget = AList.update (target edge) targetEdges (byTarget idx),
           byId = AList.update (edge_id edge) edge (byId idx) \<rparr>)"

definition createEdgeIndex :: "Edge list \<Rightarrow> IndexedEdges" where
  "createEdgeIndex edges = foldl index_edge \<lparr> bySource = [], byTarget = [], byId = [] \<rparr> edges"

section \<open>Topological sort\<close>

text \<open>
  The in-degree counters are JavaScript numbers. A counter of a node starts as a
  non-negative integer; \<open>inDegree.get(edge.target)! - 1\<close> on a key that is absent is
  \<open>undefined - 1\<close>, that is \<open>NaN\<close>, and stays \<open>NaN\<close>.
\<close>

datatype js_number = Num int | NaN

definition js_decrement :: "js_number option \<Rightarrow> js_number" where
  "js_decrement x = (case x of Some (Num n) \<Rightarrow> Num (n - 1) | Some NaN \<Rightarrow> NaN | None \<Rightarrow> NaN)"

text \<open>
  The body of the inner loop over the outgoing edges of the dequeued node, on the pair of
  \<open>inDegree\<close> and \<open>queue\<close>.
\<close>

definition relax ::
  "(js_string, js_number) js_map \<times> js_string list \<Rightarrow> Edge \<Rightarrow> (js_string, js_number) js_map \<times> js_string list"
where
  "relax st edge =
     (let targetInDegree = js_decrement (map_of (fst st) (target edge));
          inDegree = AList.update (target edge) targetInDegree (fst st)
      in (inDegree, if targetInDegree = Num 0 then snd st @ [target edge] else snd st))"

text \<open>
  The measure of the \<open>while\<close> loop: the length of the queue plus the number of keys whose
  counter is a positive integer. The inner loop keeps it, the \<open>shift\<close> decreases it.
\<close>

definition positive_keys :: "(js_string, js_number) js_map \<Rightarrow> js_string set" where
  "positive_keys d = {k. \<exists>n. 0 < n \<and> map_of d k = Some (Num n)}"

lemma finite_positive_keys: "finite (positive_keys d)"
proof (rule finite_subset)
  show "positive_keys d \<subseteq> fst ` set d"
    by (auto simp: positive_keys_def dest: map_of_SomeD intro: rev_image_eqI)
qed simp

lemma relax_measure:
  "length (snd (relax (d, q) e)) + card (positive_keys (fst (relax (d, q) e)))
     = length q + card (positive_keys d)"
proof (cases "map_of d (target e) = Some (Num 1)")
  case True
  have "positive_keys (AList.update (target e) (Num 0) d) = positive_keys d - {target e}"
    by (auto simp: positive_keys_def update_conv')
  moreover have "target e \<in> positive_keys d"
    using True by (simp add: positive_keys_def)
  ultimately have "card (positive_keys (AList.update (target e) (Num 0) d)) + 1
      = card (positive_keys d)"
    using finite_positive_keys[of d] card_Suc_Diff1[of "positive_keys d" "target e"]
    by simp
  with True show ?thesis
    by (simp add: relax_def js_decrement_def)
next
  case False
  then have neq: "js_decrement (map_of d (target e)) \<noteq> Num 0"
    by (auto simp: js_decrement_def split: option.splits js_number.splits)
  have "positive_keys (AList.update (target e) (js_decrement (map_of d (target e))) d)
      = positive_keys d"
    using False
    by (auto simp: positive_keys_def update_conv' js_decrement_def
             split: option.splits js_number.splits if_splits)
  with neq show ?thesis
    by (simp add: relax_def Let_def)
qed

lemma foldl_relax_measure:
  "length (snd (foldl relax (d, q) es)) + card (positive_keys (fst (foldl relax (d, q) es)))
     = length q + card (positive_keys d)"
proof (induction es arbitrary: d q)
  case Nil
  show ?case by simp
next
  case (Cons e es)
  obtain d' q' where r: "relax (d, q) e = (d', q')" by (cases "relax (d, q) e")
  with relax_measure[of d q e] Cons.IH[of d' q'] show ?case by simp
qed

function kahn_loop ::
  "IndexedEdges \<Rightarrow> js_string list \<Rightarrow> (js_string, js_number) js_map \<Rightarrow> js_string list \<Rightarrow> js_string list"
where
  "kahn_loop edgeIndex [] inDegree result = result"
| "kahn_loop edgeIndex (nodeId # queue) inDegree result =
     (let outgoingEdges = get_or_empty (bySource edgeIndex) nodeId;
          st = foldl relax (inDegree, queue) outgoingEdges
      in kahn_loop edgeIndex (snd st) (fst st) (result @ [nodeId]))"
  by pat_completeness auto
termination
proof (relation "measure (\<lambda>(idx, q, d, r). length q + card (positive_keys d))")
  show "wf (measure (\<lambda>(idx, q, d, r). length q + card (positive_keys d)))" by simp
next
  fix edgeIndex :: IndexedEdges and nodeId queue inDegree and result :: "js_string list"
    and outgoingEdges st
  assume "outgoingEdges = get_or_empty (bySource edgeIndex) nodeId"
    and st: "st = foldl relax (inDegree, queue) outgoingEdges"
  show "((edgeIndex, snd st, fst st, result @ [nodeId]), (edgeIndex, nodeId # queue, inDegree, result))
      \<in> measure (\<lambda>(idx, q, d, r). length q + card (positive_keys d))"
    using foldl_relax_measure[of inDegree queue outgoingEdges] unfolding st by simp
qed

text \<open>
  \<open>topologicalSort\<close>. The initial counter \<open>byTarget.get(id)?.length || 0\<close> is the length of
  \<open>byTarget.get(id) || []\<close>; the final \<open>map\<close> and \<open>filter(Boolean)\<close> keep the nodes found in
  \<open>nodeIndex\<close>.
\<close>

definition topologicalSort :: "WorkflowNode list \<Rightarrow> Edge list \<Rightarrow> WorkflowNode list" where
  "topologicalSort nodes edges =
     (let edgeIndex = createEdgeIndex edges;
          nodeIndex = foldl (\<lambda>m node. AList.update (node_id node) node m) [] nodes;
          inDegree = foldl (\<lambda>m node. AList.update (node_id node)
                        (Num (int (length (get_or_empty (byTarget edgeIndex) (node_id node))))) m)
                      [] nodes;
          sourceNodes = filter (\<lambda>node. map_of inDegree (node_id node) = Some (Num 0)) nodes;
          queue = map node_id sourceNodes;
          result = kahn_loop edgeIndex queue inDegree []
      in List.map_filter (map_of nodeIndex) result)"

section \<open>Sanitization of commands and prompts\<close>

text \<open>\<open>output.replace(/\r\n/g, '\n')\<close>: CR is 0x0D and LF is 0x0A.\<close>

fun normalize_newlines :: "js_string \<Rightarrow> js_string" where
  "normalize_newlines (c1 # c2 # r) =
     (if c1 = 0x0D \<and> c2 = 0x0A then 0x0A # normalize_newlines r
      else c1 # normalize_newlines (c2 # r))"
| "normalize_newlines cs = cs"

text \<open>
  \<open>input.replace(/\${/g, '\\${')\<close>: a backslash (0x5C) is put before every \<open>${\<close>.
\<close>

fun sanitizeForPrompt :: "js_string \<Rightarrow> js_string" where
  "sanitizeForPrompt (c1 # c2 # r) =
     (if c1 = 0x24 \<and> c2 = 0x7B then 0x5C # 0x24 # 0x7B # sanitizeForPrompt r
      else c1 # sanitizeForPrompt (c2 # r))"
| "sanitizeForPrompt cs = cs"

text \<open>
  \<open>input.replace(/\\/g, '\\\\').replace(/\${/g, '\\${')\<close>: every backslash is doubled,
  then every \<open>${\<close> gets a backslash.
\<close>

definition sanitizeForShell :: "js_string \<Rightarrow> js_string" where
  "sanitizeForShell input =
     sanitizeForPrompt (concat (map (\<lambda>c. if c = 0x5C then [0x5C, 0x5C] else [c]) input))"

text \<open>
  \<open>GetSubstitution\<close> of ECMAScript, which \<open>replaceAll\<close> applies to a replacement given as
  a string: the replacement is a template, in which \<open>$$\<close> stands for \<open>$\<close>, \<open>$&\<close> for the
  matched text, \<open>$`\<close> and \<open>$'\<close> for the text before and after the match, and \<open>$n\<close> or
  \<open>$nn\<close> for the capture of that number. The arguments are the matched text, the text of
  the whole string before and after the match, the captures and the template. Two digits
  that number no capture are read as one digit; a number that names no capture, \<open>$<\<close>
  (the pattern has no named group) and any other \<open>$\<close> stand for themselves. None of the
  captures here is undefined. The code units of \<open>$\<close>, \<open>`\<close>, \<open>&\<close>, \<open>'\<close> and \<open><\<close> are 0x24,
  0x60, 0x26, 0x27 and 0x3C.
\<close>

definition capture_ref :: "js_string list \<Rightarrow> nat \<Rightarrow> js_string \<Rightarrow> js_string" where
  "capture_ref captures index ref =
     (if 1 \<le> index \<and> index \<le> length captures then captures ! (index - 1) else ref)"

fun GetSubstitution ::
  "js_string \<Rightarrow> js_string \<Rightarrow> js_string \<Rightarrow> js_string list \<Rightarrow> js_string \<Rightarrow> js_string" where
  "GetSubstitution matched before after captures (c1 # c2 # r) =
     (if c1 \<noteq> 0x24 then c1 # GetSubstitution matched before after captures (c2 # r)
      else if c2 = 0x24 then 0x24 # GetSubstitution matched before after captures r
      else if c2 = 0x60 then before @ GetSubstitution matched before after captures r
      else if c2 = 0x26 then matched @ GetSubstitution matched before after captures r
      else if c2 = 0x27 then after @ GetSubstitution matched before after captures r
      else if is_digit c2 then
        (case r of
           c3 # r' \<Rightarrow>
             if is_digit c3 \<and> parseInt [c2, c3] \<le> length captures
             then capture_ref captures (parseInt [c2, c3]) [c1, c2, c3]
                  @ GetSubstitution matched before after captures r'
             else capture_ref captures (parseInt [c2]) [c1, c2]
                  @ GetSubstitution matched before after captures (c3 # r')
         | [] \<Rightarrow> capture_ref captures (parseInt [c2]) [c1, c2])
      else if c2 = 0x3C then 0x24 # 0x3C # GetSubstitution matched before after captures r
      else c1 # GetSubstitution matched before after captures (c2 # r))"
| "GetSubstitution matched before after captures cs = cs"

text \<open>
  \<open>content.replaceAll(/(\s~\/)/g, replacement)\<close>: every match of a white space, \<open>~\<close>
  (0x7E) and \<open>/\<close> (0x2F), found from left to right, is replaced by the substitution of
  the template; the one capture of the pattern is the whole match. \<open>before\<close> is the text of
  the string on the left of the position reached.
\<close>

fun replaceAll_home :: "js_string \<Rightarrow> js_string \<Rightarrow> js_string \<Rightarrow> js_string" where
  "replaceAll_home replacement before (c1 # c2 # c3 # r) =
     (if js_whitespace c1 \<and> c2 = 0x7E \<and> c3 = 0x2F
      then GetSubstitution [c1, c2, c3] before r [[c1, c2, c3]] replacement
           @ replaceAll_home replacement (before @ [c1, c2, c3]) r
      else c1 # replaceAll_home replacement (before @ [c1]) (c2 # c3 # r))"
| "replaceAll_home replacement before cs = cs"

text \<open>The replacement of the source is the template \<open>` ${homeDir}${path.sep}`\<close>.\<close>

definition expand_home :: "js_string \<Rightarrow> js_string \<Rightarrow> js_string \<Rightarrow> js_string" where
  "expand_home homeDir sep command = replaceAll_home (0x20 # homeDir @ sep) [] command"

text \<open>
  \<open>filteredCommand.replace(/(?<!\\)"/g, "'")\<close>: a double quote becomes a single quote
  unless the code unit before it in the input is a backslash. The first argument is that
  code unit, if any. The double quote is 0x22 and the single quote 0x27.
\<close>

fun convert_quotes :: "code_unit option \<Rightarrow> js_string \<Rightarrow> js_string" where
  "convert_quotes prev [] = []"
| "convert_quotes prev (c # cs) =
     (if c = 0x22 \<and> prev \<noteq> Some (0x5C) then 0x27 # convert_quotes (Some c) cs
      else c # convert_quotes (Some c) cs)"

definition commandsNotAllowed :: "js_string list" where
  "commandsNotAllowed =
     [js ''rm'', js ''chmod'', js ''shutdown'', js ''history'', js ''user'', js ''sudo'', js ''su'', js ''passwd'',
      js ''chown'', js ''chgrp'', js ''kill'', js ''reboot'', js ''poweroff'', js ''init'', js ''systemctl'',
      js ''journalctl'', js ''dmesg'', js ''lsblk'', js ''lsmod'', js ''modprobe'', js ''insmod'', js ''rmmod'',
      js ''lsusb'', js ''lspci'']"

section \<open>The run: events, collaborators and state\<close>

text \<open>
  What a run does to the outside is a trace of events: the messages posted to the webview,
  the error notifications, and the calls to the collaborators. A call carries the
  identifier of the node on whose behalf it is made.
\<close>

datatype NodeStatus = Running | PendingApproval | Completed | Failed | Interrupted

datatype Event =
    ExecutionStarted
  | ExecutionCompleted
  | NodeExecutionStatus js_string NodeStatus "js_string option"
  | TokenCount js_string nat
  | ShowErrorMessage js_string
  | ApprovalRequested js_string
  | ShellExecute js_string js_string
  | ShellDispose
  | ChatRequest js_string js_string
  | TokenEncode js_string js_string
  | CorpusLookup js_string
  | RetrieveContext js_string js_string

text \<open>A value thrown by a collaborator: an \<open>Error\<close> with its name and message, or another value.\<close>

datatype JsError = JsError js_string js_string | NonError

datatype StreamMessage = Change js_string | Complete | StreamError JsError

text \<open>
  The chat call is rejected, or yields a stream: its messages and, if the iteration
  throws at its end, the error.
\<close>

datatype ChatOutcome = ChatRejected JsError | ChatStream "StreamMessage list" "JsError option"

text \<open>
  One chat call together with the 30-second timer: \<open>timer = Some k\<close> says that the timer
  fires when \<open>k\<close> messages of the stream have been taken, \<open>None\<close> that it fires after the
  stream has ended.
\<close>

record ChatRun =
  outcome :: ChatOutcome
  timer :: "nat option"

datatype CorpusItemType = Tree | Repository | OtherItem

datatype CorpusItems = PendingOperation | Items "CorpusItemType list"

text \<open>
  The collaborators, over a state of the outside world \<open>'w\<close> that every call may read and
  change. A call that throws returns \<open>Inl\<close> with the message of the error (or the string
  of the thrown value).
\<close>

record 'w Collaborators =
  shell_available :: "'w \<Rightarrow> bool"
  workspace_trusted :: "'w \<Rightarrow> bool"
  homeDir :: js_string
  path_sep :: js_string
  approvalHandler :: "js_string \<Rightarrow> 'w \<Rightarrow> (js_string + js_string option) \<times> 'w"
  shell_execute :: "js_string \<Rightarrow> 'w \<Rightarrow> (js_string + js_string) \<times> 'w"
  chat :: "WorkflowNode \<Rightarrow> 'w \<Rightarrow> ChatRun \<times> 'w"
  token_encode :: "js_string \<Rightarrow> 'w \<Rightarrow> (js_string + nat) \<times> 'w"
  corpus_items :: "'w \<Rightarrow> (js_string + CorpusItems) \<times> 'w"
  retrieveContext :: "js_string \<Rightarrow> 'w \<Rightarrow> (js_string + (js_string \<times> js_string option) list) \<times> 'w"

text \<open>\<open>nodeIndex\<close>, the third field of the context, is never read and is left out.\<close>

record IndexedExecutionContext =
  nodeOutputs :: "(js_string, js_string) js_map"
  edgeIndex :: IndexedEdges

record 'w RunState =
  ctx :: IndexedExecutionContext
  world :: "'w"
  trace :: "Event list"

definition emit :: "Event \<Rightarrow> 'w RunState \<Rightarrow> 'w RunState" where
  "emit e st = st\<lparr> trace := trace st @ [e] \<rparr>"

section \<open>Node executors\<close>

text \<open>
  The approval step of \<open>executeCLINode\<close>: the \<open>pending_approval\<close> message, the call of
  the handler, and the command to execute, which is the handler's replacement when it
  returns a non-empty one.
\<close>

definition request_approval ::
  "'w Collaborators \<Rightarrow> WorkflowNode \<Rightarrow> js_string \<Rightarrow> 'w RunState \<Rightarrow> (js_string + js_string) \<times> 'w RunState"
where
  "request_approval env node convertQuotes st =
     (if needsUserApproval (data node) then
        (let st1 = emit (NodeExecutionStatus (node_id node) PendingApproval (Some convertQuotes)) st;
             st2 = emit (ApprovalRequested (node_id node)) st1;
             (approval, w) = approvalHandler env (node_id node) (world st2);
             st3 = st2\<lparr> world := w \<rparr>
         in case approval of
              Inl err \<Rightarrow> (Inl err, st3)
            | Inr None \<Rightarrow> (Inr convertQuotes, st3)
            | Inr (Some command) \<Rightarrow> (Inr (if command \<noteq> [] then command else convertQuotes), st3))
      else (Inr convertQuotes, st))"

definition executeCLINode ::
  "'w Collaborators \<Rightarrow> WorkflowNode \<Rightarrow> 'w RunState \<Rightarrow> (js_string + js_string) \<times> 'w RunState"
where
  "executeCLINode env node st =
     (if \<not> (shell_available env (world st) \<and> workspace_trusted env (world st)) then
        (Inl (js ''Shell command is not supported in your current workspace.''), st)
      else case content (data node) of
        None \<Rightarrow> (Inl (js ''CLI Node requires a non-empty command''), st)
      | Some c \<Rightarrow>
          if js_trim c = [] then (Inl (js ''CLI Node requires a non-empty command''), st)
          else
            (let filteredCommand = expand_home (homeDir env) (path_sep env) c;
                 convertQuotes = convert_quotes None filteredCommand
             in case request_approval env node convertQuotes st of
                  (Inl err, st1) \<Rightarrow> (Inl err, st1)
                | (Inr commandToExecute, st1) \<Rightarrow>
                    if list_ex (\<lambda>cmd. js_startsWith convertQuotes cmd) commandsNotAllowed then
                      (Inl (js ''Cody cannot execute this command''),
                       emit (ShowErrorMessage (js ''Cody cannot execute this command'')) st1)
                    else
                      (let st2 = emit (ShellExecute (node_id node) commandToExecute) st1;
                           (result, w) = shell_execute env commandToExecute (world st2);
                           st3 = st2\<lparr> world := w \<rparr>
                       in case result of
                            Inr output \<Rightarrow> (Inr output, st3)
                          | Inl errorMessage \<Rightarrow>
                              (Inl (js ''CLI Node execution failed: '' @ errorMessage),
                               emit ShellDispose st3))))"

text \<open>
  The stream loop of \<open>executeLLMNode\<close> raced against the timer. The outcome is the first
  settlement: \<open>Inl\<close> a rejection, \<open>Inr\<close> the resolved text. A stream that ends without
  settling leaves the timer to fire.
\<close>

definition timed_out :: JsError where
  "timed_out = JsError (js ''Error'') (js ''LLM request timed out'')"

fun consume_stream ::
  "nat option \<Rightarrow> nat \<Rightarrow> js_string list \<Rightarrow> StreamMessage list \<Rightarrow> JsError option \<Rightarrow> JsError + js_string"
where
  "consume_stream tm i responseBuilder [] end_error =
     (if tm = Some i then Inl timed_out
      else case end_error of Some e \<Rightarrow> Inl e | None \<Rightarrow> Inl timed_out)"
| "consume_stream tm i responseBuilder (message # stream) end_error =
     (if tm = Some i then Inl timed_out
      else case message of
        Change text \<Rightarrow>
          if length (concat responseBuilder) > 1000000
          then Inl (JsError (js ''Error'') (js ''Response too large''))
          else consume_stream tm (i + 1) (responseBuilder @ [text]) stream end_error
      | Complete \<Rightarrow> Inr (concat responseBuilder)
      | StreamError e \<Rightarrow> Inl e)"

definition race :: "ChatRun \<Rightarrow> JsError + js_string" where
  "race r =
     (case outcome r of
        ChatRejected e \<Rightarrow> if timer r = Some 0 then Inl timed_out else Inl e
      | ChatStream stream end_error \<Rightarrow> consume_stream (timer r) 0 [] stream end_error)"

text \<open>The \<open>catch\<close> of \<open>executeLLMNode\<close>.\<close>

definition llm_error_message :: "JsError \<Rightarrow> js_string" where
  "llm_error_message e =
     (case e of
        JsError name message \<Rightarrow>
          if name = js ''AbortError'' then js ''Workflow execution aborted''
          else js ''Failed to execute LLM node: '' @ message
      | NonError \<Rightarrow> js ''Unknown error in LLM node execution'')"

definition executeLLMNode ::
  "'w Collaborators \<Rightarrow> WorkflowNode \<Rightarrow> 'w RunState \<Rightarrow> (js_string + js_string) \<times> 'w RunState"
where
  "executeLLMNode env node st =
     (case content (data node) of
        None \<Rightarrow>
          (Inl (js ''No prompt specified for LLM node '' @ node_id node @ js '' with '' @ title (data node)), st)
      | Some prompt \<Rightarrow>
          if prompt = [] then
            (Inl (js ''No prompt specified for LLM node '' @ node_id node @ js '' with '' @ title (data node)), st)
          else
            (let st1 = emit (ChatRequest (node_id node) prompt) st;
                 (r, w) = chat env node (world st1);
                 st2 = st1\<lparr> world := w \<rparr>
             in case race r of
                  Inl e \<Rightarrow> (Inl (llm_error_message e), st2)
                | Inr response \<Rightarrow> (Inr response, st2)))"

definition executePreviewNode ::
  "'w Collaborators \<Rightarrow> js_string \<Rightarrow> js_string \<Rightarrow> 'w RunState \<Rightarrow> (js_string + js_string) \<times> 'w RunState"
where
  "executePreviewNode env input nodeId st =
     (let trimmedInput = js_trim input;
          st1 = emit (TokenEncode nodeId trimmedInput) st;
          (tokenCount, w) = token_encode env trimmedInput (world st1);
          st2 = st1\<lparr> world := w \<rparr>
      in case tokenCount of
           Inl err \<Rightarrow> (Inl err, st2)
         | Inr n \<Rightarrow> (Inr trimmedInput, emit (TokenCount nodeId n) st2))"

definition executeInputNode :: "js_string \<Rightarrow> js_string" where
  "executeInputNode input = js_trim input"

text \<open>\<open>array.join(separator)\<close>\<close>

fun js_join :: "js_string \<Rightarrow> js_string list \<Rightarrow> js_string" where
  "js_join sep [] = []"
| "js_join sep [x] = x"
| "js_join sep (x # y # ys) = x @ sep @ js_join sep (y # ys)"

definition executeSearchContextNode ::
  "'w Collaborators \<Rightarrow> js_string \<Rightarrow> js_string \<Rightarrow> 'w RunState \<Rightarrow> (js_string + js_string) \<times> 'w RunState"
where
  "executeSearchContextNode env input nodeId st =
     (let st1 = emit (CorpusLookup nodeId) st;
          (corpusItems, w) = corpus_items env (world st1);
          st2 = st1\<lparr> world := w \<rparr>
      in case corpusItems of
           Inl err \<Rightarrow> (Inl err, st2)
         | Inr PendingOperation \<Rightarrow> (Inr [], st2)
         | Inr (Items items) \<Rightarrow>
             if list_ex (\<lambda>i. i = Tree \<or> i = Repository) items then
               (let st3 = emit (RetrieveContext nodeId input) st2;
                    (found, w') = retrieveContext env input (world st3);
                    st4 = st3\<lparr> world := w' \<rparr>
                in case found of
                     Inl err \<Rightarrow> (Inl err, st4)
                   | Inr items \<Rightarrow>
                       (Inr (js_join [0x0A, 0x0A]
                               (map (\<lambda>(path, text). path @ [0x0A]
                                       @ (case text of Some t \<Rightarrow> t | None \<Rightarrow> [])) items)),
                        st4))
             else (Inr [], st2))"

section \<open>Parent outputs\<close>

definition combineParentOutputsByConnectionOrder ::
  "js_string \<Rightarrow> IndexedExecutionContext \<Rightarrow> js_string list"
where
  "combineParentOutputsByConnectionOrder nodeId context =
     (let parentEdges = get_or_empty (byTarget (edgeIndex context)) nodeId
      in map (\<lambda>edge. case map_of (nodeOutputs context) (source edge) of
                        None \<Rightarrow> []
                      | Some output \<Rightarrow> js_trim (normalize_newlines output))
           parentEdges)"

section \<open>The orchestrator\<close>

text \<open>
  Modelled from the spec: one step of the traversal of \<open>getInactiveNodes\<close> (a function
  of the webview's \<open>Flow\<close> component, which is not among the sources). It adds the
  targets of the edges that leave the nodes found so far.
\<close>

definition reach_step :: "Edge list \<Rightarrow> js_string list \<Rightarrow> js_string list" where
  "reach_step edges found =
     remdups (found @ map target (filter (\<lambda>e. source e \<in> set found) edges))"

text \<open>
  Modelled from the spec: \<open>getInactiveNodes\<close>. The specification: for a node whose
  \<open>active\<close> field is false, "compute the set of all nodes reachable forward through edges
  (transitive dependents), using breadth/depth traversal"; the node itself is reached by
  the empty path. A node that can be reached at all is reached in at most as many steps
  as there are edges (\<open>set_getInactiveNodes\<close> below).
\<close>

definition getInactiveNodes :: "Edge list \<Rightarrow> js_string \<Rightarrow> js_string list" where
  "getInactiveNodes edges startNodeId = (reach_step edges ^^ length edges) [startNodeId]"

text \<open>The first loop of \<open>executeWorkflow\<close>: the identifiers to skip.\<close>

definition allInactiveNodes :: "WorkflowNode list \<Rightarrow> Edge list \<Rightarrow> js_string list" where
  "allInactiveNodes nodes edges =
     concat (map (\<lambda>node. getInactiveNodes edges (node_id node))
               (filter (\<lambda>node. active (data node) = Some False) nodes))"

text \<open>
  What one iteration of the main loop leaves: the loop goes on, the function returns
  early (after a CLI failure), or an exception leaves the function.
\<close>

datatype 'w Step = Continue "'w RunState" | Return "'w RunState" | Throw js_string "'w RunState"

text \<open>\<open>content ? replaceIndexedInputs(content, inputs) : ''\<close>\<close>

definition render :: "js_string option \<Rightarrow> js_string list \<Rightarrow> js_string" where
  "render c inputs =
     (case c of None \<Rightarrow> [] | Some t \<Rightarrow> if t = [] then [] else replaceIndexedInputs t inputs)"

definition with_content :: "WorkflowNode \<Rightarrow> js_string \<Rightarrow> WorkflowNode" where
  "with_content node c = node\<lparr> data := (data node)\<lparr> content := Some c \<rparr> \<rparr>"

text \<open>The end of an iteration: the output is stored and \<open>completed\<close> is reported.\<close>

definition complete :: "WorkflowNode \<Rightarrow> js_string \<Rightarrow> 'w RunState \<Rightarrow> 'w Step" where
  "complete node result st =
     Continue (emit (NodeExecutionStatus (node_id node) Completed (Some result))
        (st\<lparr> ctx := (ctx st)\<lparr> nodeOutputs :=
               AList.update (node_id node) result (nodeOutputs (ctx st)) \<rparr> \<rparr>))"

text \<open>The \<open>catch\<close> of the CLI case.\<close>

definition cli_failed :: "WorkflowNode \<Rightarrow> js_string \<Rightarrow> 'w RunState \<Rightarrow> 'w Step" where
  "cli_failed node errorMessage st =
     (let status = (if js_includes errorMessage (js ''aborted'') then Interrupted else Failed)
      in Return
           (emit ExecutionCompleted
             (emit (NodeExecutionStatus (node_id node) status (Some errorMessage))
               (emit (ShowErrorMessage (js ''CLI Node Error: '' @ errorMessage))
                 (emit ShellDispose st)))))"

text \<open>
  The node handed to \<open>executeCLINode\<close>: its content is the template with the sanitized
  parent outputs substituted. Likewise for \<open>executeLLMNode\<close>.
\<close>

definition cli_request :: "WorkflowNode \<Rightarrow> IndexedExecutionContext \<Rightarrow> WorkflowNode" where
  "cli_request node context =
     (let inputs = map sanitizeForShell (combineParentOutputsByConnectionOrder (node_id node) context);
          command = render (content (data node)) inputs
      in with_content node command)"

definition llm_request :: "WorkflowNode \<Rightarrow> IndexedExecutionContext \<Rightarrow> WorkflowNode" where
  "llm_request node context =
     (let inputs = map sanitizeForPrompt (combineParentOutputsByConnectionOrder (node_id node) context);
          prompt = render (content (data node)) inputs
      in with_content node prompt)"

text \<open>The body of the main loop for a node that is not skipped.\<close>

definition run_node :: "'w Collaborators \<Rightarrow> WorkflowNode \<Rightarrow> 'w RunState \<Rightarrow> 'w Step" where
  "run_node env node st =
     (let st0 = emit (NodeExecutionStatus (node_id node) Running None) st
      in case node_type node of
           CLI \<Rightarrow>
             (case executeCLINode env (cli_request node (ctx st0)) st0 of
                (Inl errorMessage, st1) \<Rightarrow> cli_failed node errorMessage st1
              | (Inr result, st1) \<Rightarrow> complete node result st1)
         | LLM \<Rightarrow>
             (case executeLLMNode env (llm_request node (ctx st0)) st0 of
                (Inl err, st1) \<Rightarrow> Throw err st1
              | (Inr result, st1) \<Rightarrow> complete node result st1)
         | PREVIEW \<Rightarrow>
             (let inputs = combineParentOutputsByConnectionOrder (node_id node) (ctx st0)
              in case executePreviewNode env (js_join [0x0A] inputs) (node_id node) st0 of
                   (Inl err, st1) \<Rightarrow> Throw err st1
                 | (Inr result, st1) \<Rightarrow> complete node result st1)
         | INPUT \<Rightarrow>
             (let inputs = combineParentOutputsByConnectionOrder (node_id node) (ctx st0);
                  text = render (content (data node)) inputs
              in complete node (executeInputNode text) st0)
         | SEARCH_CONTEXT \<Rightarrow>
             (let inputs = combineParentOutputsByConnectionOrder (node_id node) (ctx st0);
                  text = render (content (data node)) inputs
              in case executeSearchContextNode env text (node_id node) st0 of
                   (Inl err, st1) \<Rightarrow> Throw err st1
                 | (Inr result, st1) \<Rightarrow> complete node result st1)
         | OTHER t \<Rightarrow> Throw (js ''Unknown node type: '' @ t) (emit ShellDispose st0))"

text \<open>The main loop over the sorted nodes.\<close>

fun execute_nodes ::
  "'w Collaborators \<Rightarrow> js_string list \<Rightarrow> WorkflowNode list \<Rightarrow> 'w RunState \<Rightarrow> 'w Step"
where
  "execute_nodes env skip [] st = Continue st"
| "execute_nodes env skip (node # sortedNodes) st =
     (if node_id node \<in> set skip then execute_nodes env skip sortedNodes st
      else case run_node env node st of
             Continue st' \<Rightarrow> execute_nodes env skip sortedNodes st'
           | Return st' \<Rightarrow> Return st'
           | Throw err st' \<Rightarrow> Throw err st')"

definition step_state :: "'w Step \<Rightarrow> 'w RunState" where
  "step_state r = (case r of Continue st \<Rightarrow> st | Return st \<Rightarrow> st | Throw err st \<Rightarrow> st)"

text \<open>How a call of \<open>executeWorkflow\<close> ends: its promise resolves or rejects.\<close>

datatype 'w Outcome = Resolved "'w RunState" | Rejected js_string "'w RunState"

definition final_state :: "'w Outcome \<Rightarrow> 'w RunState" where
  "final_state r = (case r of Resolved st \<Rightarrow> st | Rejected err st \<Rightarrow> st)"

definition initial_state :: "Edge list \<Rightarrow> 'w \<Rightarrow> 'w RunState" where
  "initial_state edges w =
     \<lparr> ctx = \<lparr> nodeOutputs = [], edgeIndex = createEdgeIndex edges \<rparr>,
       world = w, trace = [ExecutionStarted] \<rparr>"

definition executeWorkflow ::
  "'w Collaborators \<Rightarrow> WorkflowNode list \<Rightarrow> Edge list \<Rightarrow> 'w \<Rightarrow> 'w Outcome"
where
  "executeWorkflow env nodes edges w =
     (let skip = allInactiveNodes nodes edges;
          sortedNodes = topologicalSort nodes edges
      in case execute_nodes env skip sortedNodes (initial_state edges w) of
           Continue st \<Rightarrow> Resolved (emit ExecutionCompleted (emit ShellDispose st))
         | Return st \<Rightarrow> Resolved st
         | Throw err st \<Rightarrow> Rejected err st)"

section \<open>Properties of placeholder substitution\<close>

lemma not_digit_dollar [simp]: "\<not> is_digit (0x24)" "\<not> is_digit (0x7D)"
  by (simp_all add: is_digit_def)

lemma match_digits_exact:
  assumes "ds \<noteq> []" "list_all is_digit ds"
  shows "match_digits (ds @ 0x7D # post) = Some (ds, post)"
proof -
  have all: "\<And>x. x \<in> set ds \<Longrightarrow> is_digit x" using assms(2) by (simp add: list_all_iff)
  have "takeWhile is_digit (ds @ 0x7D # post) = ds"
    using all by simp
  moreover have "dropWhile is_digit (ds @ 0x7D # post) = 0x7D # post"
    using all by simp
  ultimately show ?thesis using assms(1) by (simp add: match_digits_def)
qed

lemma match_digits_append:
  "match_digits (r @ 0x24 # sfx) =
     map_option (\<lambda>(d, r'). (d, r' @ 0x24 # sfx)) (match_digits r)"
proof (cases "\<forall>x\<in>set r. is_digit x")
  case True
  then have "dropWhile is_digit (r @ 0x24 # sfx) = 0x24 # sfx"
    by simp
  moreover from True have "dropWhile is_digit r = []"
    by simp
  ultimately show ?thesis
    by (simp add: match_digits_def del: dropWhile_eq_Nil_conv)
next
  case False
  then obtain x where x: "x \<in> set r" "\<not> is_digit x" by blast
  have d: "dropWhile is_digit (r @ 0x24 # sfx) = dropWhile is_digit r @ 0x24 # sfx"
    using x by (rule dropWhile_append1)
  have t: "takeWhile is_digit (r @ 0x24 # sfx) = takeWhile is_digit r"
    using x by (rule takeWhile_append1)
  from x obtain c3 r' where c: "dropWhile is_digit r = c3 # r'"
    by (cases "dropWhile is_digit r") auto
  show ?thesis
    unfolding match_digits_def d t c by simp
qed

lemma match_placeholder_append:
  assumes "pre \<noteq> []"
  shows "match_placeholder (pre @ 0x24 # sfx) =
         map_option (\<lambda>(d, r). (d, r @ 0x24 # sfx)) (match_placeholder pre)"
proof (cases pre)
  case Nil
  with assms show ?thesis by simp
next
  case (Cons c1 p1)
  then show ?thesis
    by (cases p1) (simp_all add: match_digits_append)
qed

lemma replaceIndexedInputs_None:
  "match_placeholder (c # cs) = None \<Longrightarrow>
   replaceIndexedInputs (c # cs) outs = c # replaceIndexedInputs cs outs"
  by (simp only: replaceIndexedInputs.simps option.case)

lemma replaceIndexedInputs_Some:
  "match_placeholder (c # cs) = Some (d, r) \<Longrightarrow>
   replaceIndexedInputs (c # cs) outs = indexedInput d outs @ replaceIndexedInputs r outs"
  by (simp only: replaceIndexedInputs.simps option.case prod.case)

lemma replace_at_placeholder:
  assumes "ds \<noteq> []" "list_all is_digit ds"
  shows "replaceIndexedInputs (pre @ js ''${'' @ ds @ js ''}'' @ post) outs =
         replaceIndexedInputs pre outs @ indexedInput ds outs @ replaceIndexedInputs post outs"
proof (induction pre outs rule: replaceIndexedInputs.induct)
  case (1 outs)
  have "match_placeholder (0x24 # 0x7B # ds @ 0x7D # post) = Some (ds, post)"
    using match_digits_exact[OF assms, of post] by simp
  then have "replaceIndexedInputs (0x24 # 0x7B # ds @ 0x7D # post) outs =
      indexedInput ds outs @ replaceIndexedInputs post outs"
    by (rule replaceIndexedInputs_Some)
  then show ?case by simp
next
  case (2 c cs outs)
  let ?sfx = "0x7B # ds @ 0x7D # post"
  have m: "match_placeholder ((c # cs) @ 0x24 # ?sfx) =
        map_option (\<lambda>(d, r). (d, r @ 0x24 # ?sfx)) (match_placeholder (c # cs))"
    by (rule match_placeholder_append) simp
  show ?case
  proof (cases "match_placeholder (c # cs)")
    case None
    with m have "match_placeholder (c # cs @ 0x24 # ?sfx) = None" by simp
    then have "replaceIndexedInputs (c # cs @ 0x24 # ?sfx) outs =
        c # replaceIndexedInputs (cs @ 0x24 # ?sfx) outs"
      by (rule replaceIndexedInputs_None)
    with "2.IH"(1)[OF None] replaceIndexedInputs_None[OF None, of outs]
    show ?thesis by simp
  next
    case (Some a)
    obtain d r where a: "a = (d, r)" by (cases a)
    with m Some have "match_placeholder (c # cs @ 0x24 # ?sfx) = Some (d, r @ 0x24 # ?sfx)"
      by simp
    then have "replaceIndexedInputs (c # cs @ 0x24 # ?sfx) outs =
        indexedInput d outs @ replaceIndexedInputs (r @ 0x24 # ?sfx) outs"
      by (rule replaceIndexedInputs_Some)
    with "2.IH"(2)[OF Some a[symmetric]] replaceIndexedInputs_Some[OF Some[unfolded a], of outs]
    show ?thesis by simp
  qed
qed

lemma replaceIndexedInputs_unchanged:
  assumes "\<And>pre ds post. t = pre @ js ''${'' @ ds @ js ''}'' @ post \<Longrightarrow> ds \<noteq> [] \<Longrightarrow> list_all is_digit ds \<Longrightarrow> False"
  shows "replaceIndexedInputs t outs = t"
  using assms
proof (induction t outs rule: replaceIndexedInputs.induct)
  case (1 outs)
  then show ?case by simp
next
  case (2 c cs outs)
  have n: "match_placeholder (c # cs) = None"
  proof (cases "match_placeholder (c # cs)")
    case (Some a)
    obtain d r where "a = (d, r)" by (cases a)
    with Some match_placeholder_Some[of "c # cs" d r] "2.prems"[of "[]" d r]
    show ?thesis by simp
  qed simp
  have "replaceIndexedInputs cs outs = cs"
  proof (rule "2.IH"(1)[OF n])
    fix pre ds post
    assume "cs = pre @ js ''${'' @ ds @ js ''}'' @ post" "ds \<noteq> []" "list_all is_digit ds"
    with "2.prems"[of "c # pre" ds post] show False by simp
  qed
  with replaceIndexedInputs_None[OF n, of outs] show ?case by simp
qed

lemma indexedInput_nth:
  "indexedInput ds outs =
     (if 1 \<le> parseInt ds \<and> parseInt ds \<le> length outs then outs ! (parseInt ds - 1) else [])"
proof -
  have "nat (int (parseInt ds) - 1) = parseInt ds - 1" by simp
  then show ?thesis by (auto simp: indexedInput_def Let_def)
qed

text \<open>
  C8. \<open>replaceIndexedInputs\<close> replaces a placeholder \<open>${n}\<close> (\<open>n\<close> a non-empty string
  of decimal digits) by the \<open>n\<close>-th parent output, counted from 1, when
  \<open>1 \<le> n \<le> length\<close>, and by the empty string when \<open>n = 0\<close> or \<open>n\<close> exceeds the
  length; the text before and after the placeholder is processed the same way, and a
  template with no placeholder is returned as it is. The two examples of the
  specification evaluate as stated.
\<close>

theorem replaceIndexedInputs_placeholders:
  "(ds \<noteq> [] \<and> list_all is_digit ds \<longrightarrow>
      replaceIndexedInputs (pre @ js ''${'' @ ds @ js ''}'' @ post) outs =
        replaceIndexedInputs pre outs
        @ (if 1 \<le> parseInt ds \<and> parseInt ds \<le> length outs
           then outs ! (parseInt ds - 1) else [])
        @ replaceIndexedInputs post outs)
   \<and> (\<not> (\<exists>p d q. t = p @ js ''${'' @ d @ js ''}'' @ q \<and> d \<noteq> [] \<and> list_all is_digit d) \<longrightarrow>
      replaceIndexedInputs t outs = t)
   \<and> replaceIndexedInputs (js ''Hello ${1} and ${2}'') [js ''A'', js ''B''] = js ''Hello A and B''
   \<and> replaceIndexedInputs (js ''${5}'') [js ''A''] = []"
proof (intro conjI impI)
  assume "ds \<noteq> [] \<and> list_all is_digit ds"
  then show "replaceIndexedInputs (pre @ js ''${'' @ ds @ js ''}'' @ post) outs =
        replaceIndexedInputs pre outs
        @ (if 1 \<le> parseInt ds \<and> parseInt ds \<le> length outs
           then outs ! (parseInt ds - 1) else [])
        @ replaceIndexedInputs post outs"
    using replace_at_placeholder[of ds pre post outs]
    unfolding indexedInput_nth by blast
next
  assume "\<not> (\<exists>p d q. t = p @ js ''${'' @ d @ js ''}'' @ q \<and> d \<noteq> [] \<and> list_all is_digit d)"
  then show "replaceIndexedInputs t outs = t"
    by (intro replaceIndexedInputs_unchanged) blast
next
  show "replaceIndexedInputs (js ''Hello ${1} and ${2}'') [js ''A'', js ''B''] = js ''Hello A and B''"
    by code_simp
next
  show "replaceIndexedInputs (js ''${5}'') [js ''A''] = []"
    by code_simp
qed

theorem replaceIndexedInputs_placeholders_witness:
  "js ''12'' \<noteq> [] \<and> list_all is_digit (js ''12'')
   \<and> replaceIndexedInputs (js ''a${12}b${0}'') [js ''X'', js ''Y''] = js ''ab''
   \<and> \<not> (\<exists>p d q. js ''a$b'' = p @ js ''${'' @ d @ js ''}'' @ q \<and> d \<noteq> [] \<and> list_all is_digit d)
   \<and> replaceIndexedInputs (js ''a$b'') [js ''X''] = js ''a$b''"
proof -
  have h1: "js ''12'' \<noteq> [] \<and> list_all is_digit (js ''12'')"
    by (simp add: is_digit_def)
  have h0: "js ''0'' \<noteq> [] \<and> list_all is_digit (js ''0'')"
    by (simp add: is_digit_def)
  have p12: "parseInt (js ''12'') = 12" and p0: "parseInt (js ''0'') = 0"
    by (simp_all add: parseInt_def digit_val_def)
  have e: "replaceIndexedInputs [] [js ''X'', js ''Y''] = []"
    and a: "replaceIndexedInputs (js ''a'') [js ''X'', js ''Y''] = js ''a''"
    and b: "replaceIndexedInputs (js ''b'') [js ''X'', js ''Y''] = js ''b''"
    by code_simp+
  have "replaceIndexedInputs (js ''b'' @ js ''${'' @ js ''0'' @ js ''}'' @ []) [js ''X'', js ''Y''] = js ''b''"
    using replaceIndexedInputs_placeholders[of "js ''0''" "js ''b''" "[]" "[js ''X'', js ''Y'']"] h0
    by (simp only: p0 e b) simp
  then have b0: "replaceIndexedInputs (js ''b${0}'') [js ''X'', js ''Y''] = js ''b''" by simp
  have "replaceIndexedInputs (js ''a'' @ js ''${'' @ js ''12'' @ js ''}'' @ js ''b${0}'') [js ''X'', js ''Y''] = js ''ab''"
    using replaceIndexedInputs_placeholders[of "js ''12''" "js ''a''" "js ''b${0}''" "[js ''X'', js ''Y'']"] h1
    by (simp only: p12 a b0) simp
  then have r1: "replaceIndexedInputs (js ''a${12}b${0}'') [js ''X'', js ''Y''] = js ''ab''" by simp
  have h2: "\<not> (\<exists>p d q. js ''a$b'' = p @ js ''${'' @ d @ js ''}'' @ q \<and> d \<noteq> [] \<and> list_all is_digit d)"
  proof
    assume "\<exists>p d q. js ''a$b'' = p @ js ''${'' @ d @ js ''}'' @ q \<and> d \<noteq> [] \<and> list_all is_digit d"
    then obtain p d q where "js ''a$b'' = p @ js ''${'' @ d @ js ''}'' @ q" by blast
    then have "set (js ''a$b'') = set (p @ js ''${'' @ d @ js ''}'' @ q)" by (rule arg_cong)
    then have "0x7B \<in> set (js ''a$b'')" by simp
    then show False by simp
  qed
  have r2: "replaceIndexedInputs (js ''a$b'') [js ''X''] = js ''a$b''"
    using replaceIndexedInputs_placeholders[of _ _ _ "[js ''X'']" "js ''a$b''"] h2 by blast
  from h1 r1 h2 r2 show ?thesis by blast
qed

section \<open>Correctness of the topological sort\<close>

subsection \<open>The edge index\<close>

lemma get_or_empty_update:
  "get_or_empty (AList.update k v m) k' = (if k' = k then v else get_or_empty m k')"
  by (simp add: get_or_empty_def update_conv')

lemma bySource_index_edge:
  "get_or_empty (bySource (index_edge idx e)) s =
     get_or_empty (bySource idx) s @ (if source e = s then [e] else [])"
  by (auto simp: index_edge_def Let_def get_or_empty_update)

lemma byTarget_index_edge:
  "get_or_empty (byTarget (index_edge idx e)) t =
     get_or_empty (byTarget idx) t @ (if target e = t then [e] else [])"
  by (auto simp: index_edge_def Let_def get_or_empty_update)

lemma bySource_foldl:
  "get_or_empty (bySource (foldl index_edge idx es)) s =
     get_or_empty (bySource idx) s @ filter (\<lambda>e. source e = s) es"
  by (induction es arbitrary: idx) (simp_all add: bySource_index_edge)

lemma byTarget_foldl:
  "get_or_empty (byTarget (foldl index_edge idx es)) t =
     get_or_empty (byTarget idx) t @ filter (\<lambda>e. target e = t) es"
  by (induction es arbitrary: idx) (simp_all add: byTarget_index_edge)

lemma bySource_createEdgeIndex:
  "get_or_empty (bySource (createEdgeIndex es)) s = filter (\<lambda>e. source e = s) es"
  by (simp add: createEdgeIndex_def bySource_foldl) (simp add: get_or_empty_def)

lemma byTarget_createEdgeIndex:
  "get_or_empty (byTarget (createEdgeIndex es)) t = filter (\<lambda>e. target e = t) es"
  by (simp add: createEdgeIndex_def byTarget_foldl) (simp add: get_or_empty_def)

subsection \<open>Maps built by a loop of \<open>set\<close> calls\<close>

lemma map_of_foldl_update_other:
  "v \<notin> k ` set ns \<Longrightarrow>
   map_of (foldl (\<lambda>m n. AList.update (k n) (f n) m) m0 ns) v = map_of m0 v"
  by (induction ns arbitrary: m0) (auto simp: update_conv')

lemma map_of_foldl_update_key:
  "v \<in> k ` set ns \<Longrightarrow>
   map_of (foldl (\<lambda>m n. AList.update (k n) (g (k n)) m) m0 ns) v = Some (g v)"
proof (induction ns arbitrary: m0)
  case Nil
  then show ?case by simp
next
  case (Cons a ns)
  show ?case
  proof (cases "v \<in> k ` set ns")
    case True
    then show ?thesis using Cons.IH by simp
  next
    case False
    with Cons.prems have "v = k a" by auto
    with False show ?thesis
      using map_of_foldl_update_other[of v k ns "\<lambda>n. g (k n)" "AList.update (k a) (g (k a)) m0"]
      by (simp add: update_conv')
  qed
qed

lemma map_of_foldl_update_distinct:
  "distinct (map k ns) \<Longrightarrow> n \<in> set ns \<Longrightarrow>
   map_of (foldl (\<lambda>m n. AList.update (k n) n m) m0 ns) (k n) = Some n"
proof (induction ns arbitrary: m0)
  case Nil
  then show ?case by simp
next
  case (Cons a ns)
  show ?case
  proof (cases "n = a")
    case True
    with Cons.prems(1) have "k n \<notin> k ` set ns" by simp
    then show ?thesis
      using True map_of_foldl_update_other[of "k n" k ns "\<lambda>n. n" "AList.update (k a) a m0"]
      by (simp add: update_conv')
  next
    case False
    with Cons.prems have "n \<in> set ns" "distinct (map k ns)" by simp_all
    then show ?thesis using Cons.IH by simp
  qed
qed

subsection \<open>The inner loop of the sort\<close>

definition dec_by :: "int \<Rightarrow> js_number option \<Rightarrow> js_number option" where
  "dec_by k x =
     (if k = 0 then x else Some (case x of Some (Num n) \<Rightarrow> Num (n - k) | _ \<Rightarrow> NaN))"

lemma map_of_relax:
  "map_of (fst (relax (d, q) e)) v =
     (if v = target e then Some (js_decrement (map_of d v)) else map_of d v)"
  by (simp add: relax_def Let_def update_conv')

lemma snd_relax:
  "snd (relax (d, q) e) = q @ (if map_of d (target e) = Some (Num 1) then [target e] else [])"
  by (auto simp: relax_def Let_def js_decrement_def split: option.splits js_number.splits)

lemma dec_by_decrement:
  "0 \<le> c \<Longrightarrow> dec_by c (Some (js_decrement x)) = dec_by (1 + c) x"
  by (auto simp: dec_by_def js_decrement_def split: option.splits js_number.splits)

lemma foldl_relax_counts:
  "map_of (fst (foldl relax (d, q) es)) v =
     dec_by (int (length (filter (\<lambda>e. target e = v) es))) (map_of d v)"
proof (induction es arbitrary: d q)
  case Nil
  show ?case by (simp add: dec_by_def)
next
  case (Cons e es)
  obtain d' q' where r: "relax (d, q) e = (d', q')" by (cases "relax (d, q) e")
  have d': "map_of d' v = (if v = target e then Some (js_decrement (map_of d v)) else map_of d v)"
    using map_of_relax[of d q e v] r by simp
  show ?case
    using Cons.IH[of d' q'] r d'
    by (simp add: dec_by_decrement)
qed

lemma foldl_relax_queue:
  "\<exists>new. snd (foldl relax (d, q) es) = q @ new \<and> distinct new \<and>
     set new = {v. \<exists>n. map_of d v = Some (Num n) \<and> 0 < n
                     \<and> n \<le> int (length (filter (\<lambda>e. target e = v) es))}"
proof (induction es arbitrary: d q)
  case Nil
  show ?case by simp
next
  case (Cons e es)
  let ?t = "target e"
  let ?c = "\<lambda>es v. int (length (filter (\<lambda>e. target e = v) es))"
  obtain d' q' where r: "relax (d, q) e = (d', q')" by (cases "relax (d, q) e")
  define first where "first = (if map_of d ?t = Some (Num 1) then [?t] else [])"
  have q': "q' = q @ first"
    using snd_relax[of d q e] r by (simp add: first_def)
  have d': "\<And>v. map_of d' v = (if v = ?t then Some (js_decrement (map_of d v)) else map_of d v)"
    using map_of_relax[of d q e] r by simp
  from Cons.IH[of d' q'] obtain new' where
    n1: "snd (foldl relax (d', q') es) = q' @ new'" and n2: "distinct new'"
    and n3: "set new' = {v. \<exists>n. map_of d' v = Some (Num n) \<and> 0 < n \<and> n \<le> ?c es v}"
    by blast
  have mem: "v \<in> set (first @ new') \<longleftrightarrow>
      (\<exists>n. map_of d v = Some (Num n) \<and> 0 < n \<and> n \<le> ?c (e # es) v)" for v
  proof (cases "v = ?t")
    case False
    then show ?thesis by (auto simp: first_def n3 d')
  next
    case True
    show ?thesis
    proof (cases "map_of d ?t")
      case None
      then show ?thesis using True by (simp add: first_def n3 d' js_decrement_def)
    next
      case (Some x)
      show ?thesis
      proof (cases x)
        case NaN
        with Some show ?thesis using True by (simp add: first_def n3 d' js_decrement_def)
      next
        case (Num n)
        with Some show ?thesis using True
          by (auto simp: first_def n3 d' js_decrement_def)
      qed
    qed
  qed
  have "distinct (first @ new')"
    using n2 by (auto simp: first_def n3 d' js_decrement_def)
  moreover have "snd (foldl relax (d, q) (e # es)) = q @ first @ new'"
    using r n1 q' by simp
  moreover have "set (first @ new') =
      {v. \<exists>n. map_of d v = Some (Num n) \<and> 0 < n \<and> n \<le> ?c (e # es) v}"
    using mem by blast
  ultimately show ?case by blast
qed

subsection \<open>The invariant of the outer loop\<close>

definition ids :: "WorkflowNode list \<Rightarrow> js_string set" where
  "ids nodes = node_id ` set nodes"

definition pending :: "Edge list \<Rightarrow> js_string set \<Rightarrow> js_string \<Rightarrow> nat" where
  "pending edges U v = length (filter (\<lambda>e. target e = v \<and> source e \<notin> U) edges)"

definition topo_ok :: "Edge list \<Rightarrow> js_string list \<Rightarrow> bool" where
  "topo_ok edges R =
     (\<forall>i<length R. \<forall>e\<in>set edges. target e = R ! i \<longrightarrow> source e \<in> set (take i R))"

definition edge_rel :: "Edge list \<Rightarrow> (js_string \<times> js_string) set" where
  "edge_rel edges = (\<lambda>e. (source e, target e)) ` set edges"

definition kahn_inv ::
  "WorkflowNode list \<Rightarrow> Edge list \<Rightarrow> js_string list \<Rightarrow> (js_string, js_number) js_map
     \<Rightarrow> js_string list \<Rightarrow> bool"
where
  "kahn_inv nodes edges Q D R \<longleftrightarrow>
     distinct (R @ Q) \<and> set (R @ Q) \<subseteq> ids nodes
     \<and> (\<forall>v\<in>ids nodes. map_of D v = Some (Num (int (pending edges (set R) v))))
     \<and> (\<forall>v n. v \<notin> ids nodes \<longrightarrow> map_of D v \<noteq> Some (Num n))
     \<and> (\<forall>v\<in>ids nodes. v \<in> set (R @ Q) \<longleftrightarrow> pending edges (set R) v = 0)
     \<and> topo_ok edges R
     \<and> (\<forall>v\<in>set (R @ Q). \<exists>r\<in>ids nodes. pending edges {} r = 0 \<and> (r, v) \<in> (edge_rel edges)\<^sup>*)"

lemma pending_split:
  "s \<notin> U \<Longrightarrow>
   pending edges U v =
     pending edges (insert s U) v
     + length (filter (\<lambda>e. target e = v) (filter (\<lambda>e. source e = s) edges))"
  by (induction edges) (auto simp: pending_def)

lemma pending_zero_iff:
  "pending edges U v = 0 \<longleftrightarrow> (\<forall>e\<in>set edges. target e = v \<longrightarrow> source e \<in> U)"
  by (auto simp: pending_def filter_empty_conv)

lemma pending_mono: "pending edges U v = 0 \<Longrightarrow> pending edges (insert s U) v = 0"
  by (auto simp: pending_zero_iff)

lemma topo_ok_snoc:
  assumes "topo_ok edges R" and "pending edges (set R) s = 0"
  shows "topo_ok edges (R @ [s])"
  unfolding topo_ok_def
proof (intro allI impI ballI)
  fix i e
  assume i: "i < length (R @ [s])" and e: "e \<in> set edges" and t: "target e = (R @ [s]) ! i"
  show "source e \<in> set (take i (R @ [s]))"
  proof (cases "i < length R")
    case True
    with assms(1) e t show ?thesis by (auto simp: topo_ok_def nth_append)
  next
    case False
    with i have "i = length R" by simp
    with assms(2) e t show ?thesis by (auto simp: pending_zero_iff)
  qed
qed

lemma kahn_inv_step:
  assumes inv: "kahn_inv nodes edges (s # Q) D R"
  shows "kahn_inv nodes edges
           (snd (foldl relax (D, Q) (filter (\<lambda>e. source e = s) edges)))
           (fst (foldl relax (D, Q) (filter (\<lambda>e. source e = s) edges)))
           (R @ [s])"
proof -
  let ?es = "filter (\<lambda>e. source e = s) edges"
  let ?c = "\<lambda>v. length (filter (\<lambda>e. target e = v) ?es)"
  let ?D' = "fst (foldl relax (D, Q) ?es)"
  let ?Q' = "snd (foldl relax (D, Q) ?es)"
  let ?R' = "R @ [s]"
  from inv have dist: "distinct (R @ s # Q)" unfolding kahn_inv_def by blast
  from inv have sub: "set (R @ s # Q) \<subseteq> ids nodes" unfolding kahn_inv_def by blast
  from inv have cnt: "map_of D v = Some (Num (int (pending edges (set R) v)))"
    if "v \<in> ids nodes" for v using that unfolding kahn_inv_def by blast
  from inv have non: "map_of D v \<noteq> Some (Num n)" if "v \<notin> ids nodes" for v n
    using that unfolding kahn_inv_def by blast
  from inv have zero: "v \<in> set (R @ s # Q) \<longleftrightarrow> pending edges (set R) v = 0"
    if "v \<in> ids nodes" for v using that unfolding kahn_inv_def by blast
  from inv have topo: "topo_ok edges R" unfolding kahn_inv_def by blast
  from inv have reach: "\<exists>r\<in>ids nodes. pending edges {} r = 0 \<and> (r, v) \<in> (edge_rel edges)\<^sup>*"
    if "v \<in> set (R @ s # Q)" for v using that unfolding kahn_inv_def by blast
  have sR: "s \<notin> set R" using dist by simp
  have sN: "s \<in> ids nodes" using sub by simp
  have s0: "pending edges (set R) s = 0" using zero[OF sN] by simp
  have split: "pending edges (set R) v = pending edges (set ?R') v + ?c v" for v
    using pending_split[OF sR, of edges v] by simp
  obtain new where q': "?Q' = Q @ new" and dn: "distinct new"
    and sn: "set new = {v. \<exists>n. map_of D v = Some (Num n) \<and> 0 < n \<and> n \<le> int (?c v)}"
    using foldl_relax_queue[of D Q ?es] by blast
  have new_iff: "v \<in> set new \<longleftrightarrow>
      v \<in> ids nodes \<and> 0 < pending edges (set R) v \<and> pending edges (set ?R') v = 0" for v
  proof (cases "v \<in> ids nodes")
    case True
    define p where "p = pending edges (set R) v"
    define p' where "p' = pending edges (set ?R') v"
    define c where "c = ?c v"
    have pc: "p = p' + c" using split[of v] unfolding p_def p'_def c_def .
    have "map_of D v = Some (Num (int p))" using cnt[OF True] unfolding p_def .
    then have "v \<in> set new \<longleftrightarrow> 0 < int p \<and> int p \<le> int c"
      unfolding sn c_def by simp
    also have "\<dots> \<longleftrightarrow> 0 < p \<and> p' = 0" using pc by auto
    finally show ?thesis using True unfolding p_def p'_def by simp
  next
    case False
    show ?thesis using non[OF False] False by (simp add: sn)
  qed
  have D': "map_of ?D' v = Some (Num (int (pending edges (set ?R') v)))"
    if "v \<in> ids nodes" for v
  proof -
    define p where "p = pending edges (set R) v"
    define p' where "p' = pending edges (set ?R') v"
    define c where "c = ?c v"
    have pc: "p = p' + c" using split[of v] unfolding p_def p'_def c_def .
    have "map_of D v = Some (Num (int p))" using cnt[OF that] unfolding p_def .
    moreover have "map_of ?D' v = dec_by (int c) (map_of D v)"
      unfolding c_def by (rule foldl_relax_counts)
    ultimately have "map_of ?D' v = Some (Num (int p'))"
      using pc by (simp add: dec_by_def)
    then show ?thesis unfolding p'_def .
  qed
  have non': "map_of ?D' v \<noteq> Some (Num n)" if "v \<notin> ids nodes" for v n
  proof -
    have "\<And>m. map_of D v \<noteq> Some (Num m)" using non[OF that] by blast
    then show ?thesis using foldl_relax_counts[of D Q ?es v]
      by (cases "map_of D v") (auto simp: dec_by_def split: js_number.splits if_splits)
  qed
  have a: "distinct (?R' @ ?Q')"
  proof -
    have "v \<notin> set (R @ s # Q)" if "v \<in> set new" for v
      using that zero[of v] by (auto simp: new_iff)
    then show ?thesis using dist dn unfolding q' by auto
  qed
  have b: "set (?R' @ ?Q') \<subseteq> ids nodes"
    using sub unfolding q' by (auto simp: new_iff)
  have d: "v \<in> set (?R' @ ?Q') \<longleftrightarrow> pending edges (set ?R') v = 0" if "v \<in> ids nodes" for v
  proof
    assume "v \<in> set (?R' @ ?Q')"
    then consider "v \<in> set (R @ s # Q)" | "v \<in> set new" unfolding q' by auto
    then show "pending edges (set ?R') v = 0"
    proof cases
      case 1
      with zero[OF that] have "pending edges (set R) v = 0" by blast
      then show ?thesis using pending_mono[of edges "set R" v s] by simp
    next
      case 2
      then show ?thesis by (simp add: new_iff)
    qed
  next
    assume z: "pending edges (set ?R') v = 0"
    show "v \<in> set (?R' @ ?Q')"
    proof (cases "pending edges (set R) v = 0")
      case True
      with zero[OF that] show ?thesis unfolding q' by auto
    next
      case False
      with z that have "v \<in> set new" by (simp add: new_iff)
      then show ?thesis unfolding q' by simp
    qed
  qed
  have e: "topo_ok edges ?R'" using topo s0 by (rule topo_ok_snoc)
  have f: "\<exists>r\<in>ids nodes. pending edges {} r = 0 \<and> (r, v) \<in> (edge_rel edges)\<^sup>*"
    if "v \<in> set (?R' @ ?Q')" for v
  proof -
    from that consider "v \<in> set (R @ s # Q)" | "v \<in> set new" unfolding q' by auto
    then show ?thesis
    proof cases
      case 1
      then show ?thesis by (rule reach)
    next
      case 2
      then have "0 < ?c v" using sn by auto
      then have "filter (\<lambda>e. target e = v) ?es \<noteq> []" by auto
      then obtain ed where "ed \<in> set edges" "source ed = s" "target ed = v"
        by (auto simp: filter_empty_conv)
      then have sv: "(s, v) \<in> edge_rel edges" by (auto simp: edge_rel_def intro: rev_image_eqI)
      from reach[of s] obtain r where "r \<in> ids nodes" "pending edges {} r = 0"
        "(r, s) \<in> (edge_rel edges)\<^sup>*" by auto
      with sv show ?thesis by (meson rtrancl.rtrancl_into_rtrancl)
    qed
  qed
  show ?thesis
    unfolding kahn_inv_def using a b D' non' d e f by blast
qed

definition node_edges :: "WorkflowNode list \<Rightarrow> Edge list \<Rightarrow> (js_string \<times> js_string) set" where
  "node_edges nodes edges =
     edge_rel (filter (\<lambda>e. source e \<in> ids nodes \<and> target e \<in> ids nodes) edges)"

definition precedes :: "'a \<Rightarrow> 'a \<Rightarrow> 'a list \<Rightarrow> bool" where
  "precedes a b l = (\<exists>i j. i < j \<and> j < length l \<and> l ! i = a \<and> l ! j = b)"

lemma kahn_loop_inv:
  "kahn_inv nodes edges Q D R \<Longrightarrow>
   \<exists>D'. kahn_inv nodes edges [] D' (kahn_loop (createEdgeIndex edges) Q D R)"
proof (induction "createEdgeIndex edges" Q D R rule: kahn_loop.induct)
  case (1 inDegree result)
  then show ?case by auto
next
  case (2 nodeId queue inDegree result)
  let ?es = "filter (\<lambda>e. source e = nodeId) edges"
  have "kahn_inv nodes edges (snd (foldl relax (inDegree, queue) ?es))
          (fst (foldl relax (inDegree, queue) ?es)) (result @ [nodeId])"
    using "2.prems" by (rule kahn_inv_step)
  with "2.hyps"[OF refl refl] show ?case
    by (simp add: bySource_createEdgeIndex Let_def)
qed

lemma pending_empty: "pending edges {} v = length (filter (\<lambda>e. target e = v) edges)"
  by (simp add: pending_def)

lemma kahn_inv_init:
  assumes dist: "distinct (map node_id nodes)"
    and D0: "D0 = foldl (\<lambda>m node. AList.update (node_id node)
                (Num (int (length (get_or_empty (byTarget (createEdgeIndex edges)) (node_id node))))) m)
              [] nodes"
  shows "kahn_inv nodes edges
           (map node_id (filter (\<lambda>node. map_of D0 (node_id node) = Some (Num 0)) nodes)) D0 []"
proof -
  let ?g = "\<lambda>v. Num (int (length (get_or_empty (byTarget (createEdgeIndex edges)) v)))"
  have in_ids: "map_of D0 v = Some (Num (int (pending edges {} v)))" if "v \<in> ids nodes" for v
    using map_of_foldl_update_key[of v node_id nodes ?g "[]"] that
    unfolding D0 ids_def by (simp add: byTarget_createEdgeIndex pending_empty)
  have out_ids: "map_of D0 v = None" if "v \<notin> ids nodes" for v
    using map_of_foldl_update_other[of v node_id nodes "\<lambda>n. ?g (node_id n)" "[]"] that
    unfolding D0 ids_def by simp
  let ?Q = "map node_id (filter (\<lambda>node. map_of D0 (node_id node) = Some (Num 0)) nodes)"
  have q_iff: "v \<in> set ?Q \<longleftrightarrow> v \<in> ids nodes \<and> pending edges {} v = 0" for v
  proof
    assume "v \<in> set ?Q"
    then obtain n where n: "n \<in> set nodes" "v = node_id n" "map_of D0 (node_id n) = Some (Num 0)"
      by auto
    then have v: "v \<in> ids nodes" by (simp add: ids_def)
    with in_ids[OF v] n show "v \<in> ids nodes \<and> pending edges {} v = 0" by simp
  next
    assume a: "v \<in> ids nodes \<and> pending edges {} v = 0"
    then obtain n where n: "n \<in> set nodes" "v = node_id n" by (auto simp: ids_def)
    with a in_ids[of v] have "map_of D0 (node_id n) = Some (Num 0)" by simp
    with n show "v \<in> set ?Q" by auto
  qed
  have "distinct ?Q" using dist by (rule distinct_map_filter)
  moreover have "set ?Q \<subseteq> ids nodes" using q_iff by blast
  moreover have "topo_ok edges []" by (simp add: topo_ok_def)
  moreover have "\<forall>v\<in>set ([] @ ?Q). \<exists>r\<in>ids nodes. pending edges {} r = 0 \<and> (r, v) \<in> (edge_rel edges)\<^sup>*"
    using q_iff by auto
  moreover have "\<forall>v n. v \<notin> ids nodes \<longrightarrow> map_of D0 v \<noteq> Some (Num n)"
    using out_ids by simp
  moreover have "\<forall>v\<in>ids nodes. v \<in> set ([] @ ?Q) \<longleftrightarrow> pending edges (set []) v = 0"
    using q_iff by simp
  moreover have "\<forall>v\<in>ids nodes. map_of D0 v = Some (Num (int (pending edges (set []) v)))"
    using in_ids by simp
  ultimately show ?thesis unfolding kahn_inv_def by simp
qed

text \<open>The identifiers in the order in which the loop emits them.\<close>

definition sorted_ids :: "WorkflowNode list \<Rightarrow> Edge list \<Rightarrow> js_string list" where
  "sorted_ids nodes edges =
     (let edgeIndex = createEdgeIndex edges;
          inDegree = foldl (\<lambda>m node. AList.update (node_id node)
                        (Num (int (length (get_or_empty (byTarget edgeIndex) (node_id node))))) m)
                      [] nodes
      in kahn_loop edgeIndex
           (map node_id (filter (\<lambda>node. map_of inDegree (node_id node) = Some (Num 0)) nodes))
           inDegree [])"

lemma sorted_ids_inv:
  assumes "distinct (map node_id nodes)"
  shows "\<exists>D'. kahn_inv nodes edges [] D' (sorted_ids nodes edges)"
  unfolding sorted_ids_def Let_def
  by (rule kahn_loop_inv, rule kahn_inv_init[OF assms refl])

lemma topologicalSort_sorted_ids:
  "topologicalSort nodes edges =
     List.map_filter (map_of (foldl (\<lambda>m node. AList.update (node_id node) node m) [] nodes))
       (sorted_ids nodes edges)"
  by (simp add: topologicalSort_def sorted_ids_def Let_def)

lemma map_filter_nodeIndex:
  assumes dist: "distinct (map node_id nodes)" and sub: "set R \<subseteq> ids nodes"
  shows "map node_id (List.map_filter
            (map_of (foldl (\<lambda>m node. AList.update (node_id node) node m) [] nodes)) R) = R
       \<and> set (List.map_filter
            (map_of (foldl (\<lambda>m node. AList.update (node_id node) node m) [] nodes)) R)
          \<subseteq> set nodes"
  using sub
proof (induction R)
  case Nil
  show ?case by simp
next
  case (Cons v R)
  from Cons.prems obtain n where n: "n \<in> set nodes" "v = node_id n"
    by (auto simp: ids_def)
  then have look: "map_of (foldl (\<lambda>m node. AList.update (node_id node) node m) [] nodes) v = Some n"
    using map_of_foldl_update_distinct[OF dist, of n "[]"] by simp
  from Cons.prems have "set R \<subseteq> ids nodes" by simp
  with Cons.IH look n show ?case by simp
qed

definition in_degree :: "Edge list \<Rightarrow> js_string \<Rightarrow> nat" where
  "in_degree edges v = length (filter (\<lambda>e. target e = v) edges)"

lemma kahn_complete:
  assumes inv: "kahn_inv nodes edges [] D R"
    and closed: "list_all (\<lambda>e. target e \<in> ids nodes \<longrightarrow> source e \<in> ids nodes) edges"
    and acyc: "acyclic (node_edges nodes edges)"
  shows "set R = ids nodes"
proof (rule ccontr)
  assume neq: "set R \<noteq> ids nodes"
  from inv have sub: "set R \<subseteq> ids nodes" unfolding kahn_inv_def by simp
  from inv have zero: "v \<in> set R \<longleftrightarrow> pending edges (set R) v = 0" if "v \<in> ids nodes" for v
    using that unfolding kahn_inv_def by simp
  have "finite (node_edges nodes edges)"
    by (simp add: node_edges_def edge_rel_def)
  with acyc have "wf (node_edges nodes edges)" by (simp add: finite_acyclic_wf)
  moreover from neq sub obtain x where "x \<in> ids nodes - set R" by blast
  ultimately obtain z where z: "z \<in> ids nodes - set R"
    and zmin: "\<And>y. (y, z) \<in> node_edges nodes edges \<Longrightarrow> y \<notin> ids nodes - set R"
    by (rule wfE_min) blast
  from z zero[of z] have "pending edges (set R) z \<noteq> 0" by simp
  then obtain e where e: "e \<in> set edges" "target e = z" "source e \<notin> set R"
    by (auto simp: pending_zero_iff)
  with closed z have src: "source e \<in> ids nodes" by (auto simp: list_all_iff)
  with e z have "(source e, z) \<in> node_edges nodes edges"
    by (auto simp: node_edges_def edge_rel_def intro: rev_image_eqI)
  from zmin[OF this] src e(3) show False by simp
qed

lemma topo_ok_precedes:
  assumes "topo_ok edges R" and "e \<in> set edges" and "target e \<in> set R"
  shows "precedes (source e) (target e) R"
proof -
  from assms(3) obtain j where j: "j < length R" "R ! j = target e"
    by (auto simp: in_set_conv_nth)
  with assms(1,2) have "source e \<in> set (take j R)" by (auto simp: topo_ok_def)
  then obtain i where "i < length (take j R)" "take j R ! i = source e"
    by (auto simp: in_set_conv_nth)
  with j have "i < j \<and> j < length R \<and> R ! i = source e \<and> R ! j = target e" by simp
  then show ?thesis unfolding precedes_def by blast
qed

lemma distinct_nodes: "distinct (map node_id nodes) \<Longrightarrow> distinct nodes"
  by (simp add: distinct_map)

lemma topologicalSort_ids:
  assumes dist: "distinct (map node_id nodes)"
  shows "map node_id (topologicalSort nodes edges) = sorted_ids nodes edges"
    and "set (topologicalSort nodes edges) \<subseteq> set nodes"
    and "distinct (topologicalSort nodes edges)"
proof -
  from sorted_ids_inv[OF dist, of edges] obtain D where
    inv: "kahn_inv nodes edges [] D (sorted_ids nodes edges)" by blast
  then have sub: "set (sorted_ids nodes edges) \<subseteq> ids nodes"
    and d: "distinct (sorted_ids nodes edges)" unfolding kahn_inv_def by simp_all
  from map_filter_nodeIndex[OF dist sub]
  show m: "map node_id (topologicalSort nodes edges) = sorted_ids nodes edges"
    and "set (topologicalSort nodes edges) \<subseteq> set nodes"
    unfolding topologicalSort_sorted_ids by simp_all
  from d show "distinct (topologicalSort nodes edges)"
    unfolding m[symmetric] by (simp add: distinct_map)
qed

text \<open>Paths of edges into a node of the result.\<close>

lemma precedes_trans:
  assumes "distinct l" and "precedes a b l" and "precedes b c l"
  shows "precedes a c l"
proof -
  from assms(2) obtain i j where ij: "i < j" "j < length l" "l ! i = a" "l ! j = b"
    unfolding precedes_def by blast
  from assms(3) obtain i' j' where ij': "i' < j'" "j' < length l" "l ! i' = b" "l ! j' = c"
    unfolding precedes_def by blast
  from ij ij' have "j < length l" "i' < length l" "l ! j = l ! i'" by simp_all
  with assms(1) have "j = i'" by (simp add: nth_eq_iff_index_eq)
  with ij ij' have "i < j' \<and> j' < length l \<and> l ! i = a \<and> l ! j' = c" by simp
  then show ?thesis unfolding precedes_def by blast
qed

lemma precedes_irrefl:
  assumes "distinct l" shows "\<not> precedes a a l"
proof
  assume "precedes a a l"
  then obtain i j where "i < j" "j < length l" "l ! i = a" "l ! j = a"
    unfolding precedes_def by blast
  then have "i < length l" "j < length l" "l ! i = l ! j" "i \<noteq> j" by simp_all
  with assms show False by (simp add: nth_eq_iff_index_eq)
qed

lemma precedes_in_set: "precedes a b l \<Longrightarrow> a \<in> set l"
proof -
  assume "precedes a b l"
  then obtain i j where "i < j" "j < length l" "l ! i = a" unfolding precedes_def by blast
  then have "i < length l" "l ! i = a" by simp_all
  then show "a \<in> set l" by (auto simp: in_set_conv_nth)
qed

lemma topo_ok_path_precedes:
  assumes topo: "topo_ok edges R" and dist: "distinct R"
    and path: "(a, b) \<in> (edge_rel edges)\<^sup>+" and b: "b \<in> set R"
  shows "precedes a b R"
  using path
proof (induction rule: converse_trancl_induct)
  case (base y)
  then obtain e where "e \<in> set edges" "source e = y" "target e = b"
    by (auto simp: edge_rel_def)
  with topo_ok_precedes[OF topo, of e] b show ?case by simp
next
  case (step y z)
  from step.IH have "z \<in> set R" by (rule precedes_in_set)
  moreover from step.hyps(1) obtain e where "e \<in> set edges" "source e = y" "target e = z"
    by (auto simp: edge_rel_def)
  ultimately have "precedes y z R" using topo_ok_precedes[OF topo, of e] by simp
  with dist show ?case using step.IH by (rule precedes_trans)
qed

lemma kahn_result_ancestors:
  assumes inv: "kahn_inv nodes edges [] D R"
    and v: "v \<in> set R" and path: "(u, v) \<in> (edge_rel edges)\<^sup>*"
  shows "u \<in> set R"
  using path v
proof (induction rule: converse_rtrancl_induct)
  case base
  then show ?case .
next
  case (step y z)
  then have z: "z \<in> set R" by simp
  from inv have sub: "set R \<subseteq> ids nodes"
    and zero: "\<And>w. w \<in> ids nodes \<Longrightarrow> w \<in> set R \<longleftrightarrow> pending edges (set R) w = 0"
    unfolding kahn_inv_def by simp_all
  from z sub zero[of z] have "pending edges (set R) z = 0" by blast
  moreover from step.hyps(1) obtain e where "e \<in> set edges" "source e = y" "target e = z"
    by (auto simp: edge_rel_def)
  ultimately show ?case by (auto simp: pending_zero_iff)
qed

lemma kahn_result_iff:
  assumes inv: "kahn_inv nodes edges [] D R" and v: "v \<in> ids nodes"
  shows "v \<in> set R \<longleftrightarrow>
     (\<forall>u. (u, v) \<in> (edge_rel edges)\<^sup>* \<longrightarrow> u \<in> ids nodes \<and> (u, u) \<notin> (edge_rel edges)\<^sup>+)"
proof
  from inv have sub: "set R \<subseteq> ids nodes" and dist: "distinct R" and topo: "topo_ok edges R"
    unfolding kahn_inv_def by simp_all
  assume vR: "v \<in> set R"
  show "\<forall>u. (u, v) \<in> (edge_rel edges)\<^sup>* \<longrightarrow> u \<in> ids nodes \<and> (u, u) \<notin> (edge_rel edges)\<^sup>+"
  proof (intro allI impI conjI)
    fix u assume "(u, v) \<in> (edge_rel edges)\<^sup>*"
    with inv vR have uR: "u \<in> set R" by (rule kahn_result_ancestors)
    with sub show "u \<in> ids nodes" by blast
    show "(u, u) \<notin> (edge_rel edges)\<^sup>+"
    proof
      assume "(u, u) \<in> (edge_rel edges)\<^sup>+"
      with topo dist have "precedes u u R" using uR by (rule topo_ok_path_precedes)
      with precedes_irrefl[OF dist] show False by blast
    qed
  qed
next
  assume anc: "\<forall>u. (u, v) \<in> (edge_rel edges)\<^sup>* \<longrightarrow> u \<in> ids nodes \<and> (u, u) \<notin> (edge_rel edges)\<^sup>+"
  from inv have zero: "\<And>w. w \<in> ids nodes \<Longrightarrow> w \<in> set R \<longleftrightarrow> pending edges (set R) w = 0"
    unfolding kahn_inv_def by simp
  define A where "A = {u. (u, v) \<in> (edge_rel edges)\<^sup>*}"
  define r where "r = {(y, z). (y, z) \<in> edge_rel edges \<and> z \<in> A}"
  have rsub: "r \<subseteq> edge_rel edges" unfolding r_def by blast
  have "finite (edge_rel edges)" by (simp add: edge_rel_def)
  with rsub have fin: "finite r" by (rule finite_subset)
  have tr: "(x, y) \<in> r\<^sup>+ \<Longrightarrow> (x, y) \<in> (edge_rel edges)\<^sup>+ \<and> y \<in> A" for x y
  proof (induction rule: trancl_induct)
    case (base y)
    then show ?case unfolding r_def by blast
  next
    case (step y z)
    then show ?case unfolding r_def by (auto intro: trancl_into_trancl)
  qed
  have "acyclic r"
  proof (rule acyclicI, intro allI notI)
    fix x assume "(x, x) \<in> r\<^sup>+"
    from tr[OF this] anc show False unfolding A_def by blast
  qed
  with fin have "wf r" by (simp add: finite_acyclic_wf)
  show "v \<in> set R"
  proof (rule ccontr)
    assume "v \<notin> set R"
    then have "v \<in> A - set R" unfolding A_def by simp
    with \<open>wf r\<close> obtain z where z: "z \<in> A - set R"
      and zmin: "\<And>y. (y, z) \<in> r \<Longrightarrow> y \<notin> A - set R"
      by (rule wfE_min) blast
    from z anc have "z \<in> ids nodes" unfolding A_def by blast
    with z zero[of z] have "pending edges (set R) z \<noteq> 0" by simp
    then obtain e where e: "e \<in> set edges" "target e = z" "source e \<notin> set R"
      by (auto simp: pending_zero_iff)
    then have er: "(source e, z) \<in> edge_rel edges" by (auto simp: edge_rel_def intro: rev_image_eqI)
    with z have "(source e, z) \<in> r" unfolding r_def by simp
    from zmin[OF this] e(3) have "source e \<notin> A" by simp
    moreover from er z have "source e \<in> A" unfolding A_def by (auto intro: converse_rtrancl_into_rtrancl)
    ultimately show False by simp
  qed
qed

text \<open>
  C4, as amended. For every input graph, cyclic or not, whose node identifiers are
  distinct, the result of \<open>topologicalSort\<close> holds each input node at most once and is a
  subsequence of an ordering of the input nodes. An input node is in the result exactly
  when every node from which the edges lead to it, the node itself included, is an input
  node and lies on no cycle: a node on a cycle, a node downstream of a cycle and a node
  downstream of an edge that starts at no input node are absent, whether a
  zero-in-degree node reaches them or not. In particular a node that no zero-in-degree
  node reaches is absent. The function is total and has no error result: no
  cycle-detection error exists.
\<close>

theorem topologicalSort_any_graph:
  assumes "distinct (map node_id nodes)"
  shows "distinct (topologicalSort nodes edges)
     \<and> (\<exists>p. mset p = mset nodes \<and> subseq (topologicalSort nodes edges) p)
     \<and> list_all (\<lambda>n. n \<in> set (topologicalSort nodes edges) \<longleftrightarrow>
          (\<forall>u. (u, node_id n) \<in> (edge_rel edges)\<^sup>* \<longrightarrow>
               u \<in> ids nodes \<and> (u, u) \<notin> (edge_rel edges)\<^sup>+)) nodes
     \<and> list_all (\<lambda>n.
          \<not> (\<exists>r. r \<in> set nodes \<and> in_degree edges (node_id r) = 0
                 \<and> (node_id r, node_id n) \<in> (edge_rel edges)\<^sup>*)
          \<longrightarrow> n \<notin> set (topologicalSort nodes edges)) nodes"
proof (intro conjI)
  let ?res = "topologicalSort nodes edges"
  note ts = topologicalSort_ids[OF assms, of edges]
  show dres: "distinct ?res" by (rule ts(3))
  show "\<exists>p. mset p = mset nodes \<and> subseq ?res p"
  proof (intro exI conjI)
    let ?p = "?res @ filter (\<lambda>n. n \<notin> set ?res) nodes"
    have seteq: "set ?res = set (filter (\<lambda>n. n \<in> set ?res) nodes)" using ts(2) by auto
    have dfil: "distinct (filter (\<lambda>n. n \<in> set ?res) nodes)"
      using distinct_nodes[OF assms] by simp
    have "mset ?res = mset (filter (\<lambda>n. n \<in> set ?res) nodes)"
      using set_eq_iff_mset_eq_distinct[OF dres dfil] seteq by blast
    then have "mset ?p = mset (filter (\<lambda>n. n \<in> set ?res) nodes)
        + mset (filter (\<lambda>n. n \<notin> set ?res) nodes)" by simp
    also have "\<dots> = mset nodes" by (simp only: mset_filter multiset_partition[symmetric])
    finally show "mset ?p = mset nodes" .
    show "subseq ?res ?p" by (rule prefix_imp_subseq) simp
  qed
  from sorted_ids_inv[OF assms, of edges] obtain D where
    inv: "kahn_inv nodes edges [] D (sorted_ids nodes edges)" by blast
  then have reach: "\<exists>r\<in>ids nodes. pending edges {} r = 0 \<and> (r, v) \<in> (edge_rel edges)\<^sup>*"
    if "v \<in> set (sorted_ids nodes edges)" for v
    using that unfolding kahn_inv_def by simp
  have mem: "n \<in> set ?res \<longleftrightarrow> node_id n \<in> set (sorted_ids nodes edges)"
    if n: "n \<in> set nodes" for n
  proof
    assume "n \<in> set ?res"
    then have "node_id n \<in> set (map node_id ?res)" by simp
    then show "node_id n \<in> set (sorted_ids nodes edges)" unfolding ts(1) .
  next
    assume "node_id n \<in> set (sorted_ids nodes edges)"
    then have "node_id n \<in> set (map node_id ?res)" unfolding ts(1) .
    then obtain m where m: "m \<in> set ?res" "node_id m = node_id n" by auto
    with ts(2) have "m \<in> set nodes" by blast
    with n m(2) assms have "m = n" by (auto simp: distinct_map inj_on_def)
    with m(1) show "n \<in> set ?res" by simp
  qed
  show "list_all (\<lambda>n. n \<in> set ?res \<longleftrightarrow>
          (\<forall>u. (u, node_id n) \<in> (edge_rel edges)\<^sup>* \<longrightarrow>
               u \<in> ids nodes \<and> (u, u) \<notin> (edge_rel edges)\<^sup>+)) nodes"
    unfolding list_all_iff
  proof
    fix n assume n: "n \<in> set nodes"
    then have "node_id n \<in> ids nodes" by (simp add: ids_def)
    from kahn_result_iff[OF inv this] mem[OF n]
    show "n \<in> set ?res \<longleftrightarrow>
          (\<forall>u. (u, node_id n) \<in> (edge_rel edges)\<^sup>* \<longrightarrow>
               u \<in> ids nodes \<and> (u, u) \<notin> (edge_rel edges)\<^sup>+)" by simp
  qed
  show "list_all (\<lambda>n.
          \<not> (\<exists>r. r \<in> set nodes \<and> in_degree edges (node_id r) = 0
                 \<and> (node_id r, node_id n) \<in> (edge_rel edges)\<^sup>*)
          \<longrightarrow> n \<notin> set ?res) nodes"
    unfolding list_all_iff
  proof (intro ballI impI notI)
    fix n
    assume "n \<in> set ?res"
    then have "node_id n \<in> set (map node_id ?res)" by simp
    then have "node_id n \<in> set (sorted_ids nodes edges)" unfolding ts(1) .
    from reach[OF this] obtain r where "r \<in> ids nodes" "pending edges {} r = 0"
      "(r, node_id n) \<in> (edge_rel edges)\<^sup>*" by blast
    moreover assume "\<not> (\<exists>r. r \<in> set nodes \<and> in_degree edges (node_id r) = 0
                 \<and> (node_id r, node_id n) \<in> (edge_rel edges)\<^sup>*)"
    ultimately show False by (auto simp: ids_def in_degree_def pending_empty)
  qed
qed

text \<open>
  C3, as amended. For every input graph whose node identifiers are distinct, in which
  every edge into an input node starts at an input node, and which has no directed cycle
  among its nodes, \<open>topologicalSort\<close> returns every input node exactly once, and for
  every edge whose endpoints are both input nodes the source stands before the target.
\<close>

theorem topologicalSort_dag:
  assumes "distinct (map node_id nodes)"
    and "list_all (\<lambda>e. target e \<in> ids nodes \<longrightarrow> source e \<in> ids nodes) edges"
    and "acyclic (node_edges nodes edges)"
  shows "mset (topologicalSort nodes edges) = mset nodes
     \<and> list_all (\<lambda>e. source e \<in> ids nodes \<and> target e \<in> ids nodes \<longrightarrow>
          precedes (source e) (target e) (map node_id (topologicalSort nodes edges))) edges"
proof (intro conjI)
  let ?res = "topologicalSort nodes edges"
  note ts = topologicalSort_ids[OF assms(1), of edges]
  from sorted_ids_inv[OF assms(1), of edges] obtain D where
    inv: "kahn_inv nodes edges [] D (sorted_ids nodes edges)" by blast
  have all: "set (sorted_ids nodes edges) = ids nodes"
    using inv assms(2,3) by (rule kahn_complete)
  have "set ?res = set nodes"
  proof
    show "set ?res \<subseteq> set nodes" by (rule ts(2))
    show "set nodes \<subseteq> set ?res"
    proof
      fix n assume n: "n \<in> set nodes"
      then have "node_id n \<in> set (map node_id ?res)"
        unfolding ts(1) all by (simp add: ids_def)
      then obtain m where m: "m \<in> set ?res" "node_id m = node_id n" by auto
      with ts(2) have "m \<in> set nodes" by blast
      with n m(2) assms(1) have "m = n" by (auto simp: distinct_map inj_on_def)
      with m(1) show "n \<in> set ?res" by simp
    qed
  qed
  then show "mset ?res = mset nodes"
    using set_eq_iff_mset_eq_distinct[OF ts(3) distinct_nodes[OF assms(1)]] by blast
  from inv have topo: "topo_ok edges (sorted_ids nodes edges)" unfolding kahn_inv_def by simp
  show "list_all (\<lambda>e. source e \<in> ids nodes \<and> target e \<in> ids nodes \<longrightarrow>
          precedes (source e) (target e) (map node_id ?res)) edges"
    unfolding list_all_iff ts(1)
  proof (intro ballI impI)
    fix e assume "e \<in> set edges" "source e \<in> ids nodes \<and> target e \<in> ids nodes"
    then show "precedes (source e) (target e) (sorted_ids nodes edges)"
      using topo all by (intro topo_ok_precedes) simp_all
  qed
qed

text \<open>Nodes and edges for the examples.\<close>

definition mk_node :: "js_string \<Rightarrow> NodeType \<Rightarrow> js_string option \<Rightarrow> WorkflowNode" where
  "mk_node i t c =
     \<lparr> node_id = i, node_type = t,
       data = \<lparr> title = i, content = c, active = None, needsUserApproval = False \<rparr> \<rparr>"

definition mk_edge :: "js_string \<Rightarrow> js_string \<Rightarrow> Edge" where
  "mk_edge s t = \<lparr> edge_id = s @ js ''-'' @ t, source = s, target = t \<rparr>"

theorem topologicalSort_dag_witness:
  "distinct (map node_id [mk_node (js ''c'') PREVIEW None, mk_node (js ''b'') LLM None, mk_node (js ''a'') CLI None])
   \<and> list_all (\<lambda>e. target e \<in> ids [mk_node (js ''c'') PREVIEW None, mk_node (js ''b'') LLM None, mk_node (js ''a'') CLI None]
                 \<longrightarrow> source e \<in> ids [mk_node (js ''c'') PREVIEW None, mk_node (js ''b'') LLM None, mk_node (js ''a'') CLI None])
        [mk_edge (js ''b'') (js ''c''), mk_edge (js ''a'') (js ''b''), mk_edge (js ''a'') (js ''c''), mk_edge (js ''c'') (js ''x'')]
   \<and> acyclic (node_edges [mk_node (js ''c'') PREVIEW None, mk_node (js ''b'') LLM None, mk_node (js ''a'') CLI None]
        [mk_edge (js ''b'') (js ''c''), mk_edge (js ''a'') (js ''b''), mk_edge (js ''a'') (js ''c''), mk_edge (js ''c'') (js ''x'')])
   \<and> mset (topologicalSort [mk_node (js ''c'') PREVIEW None, mk_node (js ''b'') LLM None, mk_node (js ''a'') CLI None]
        [mk_edge (js ''b'') (js ''c''), mk_edge (js ''a'') (js ''b''), mk_edge (js ''a'') (js ''c''), mk_edge (js ''c'') (js ''x'')])
       = mset [mk_node (js ''c'') PREVIEW None, mk_node (js ''b'') LLM None, mk_node (js ''a'') CLI None]
   \<and> topologicalSort [mk_node (js ''c'') PREVIEW None, mk_node (js ''b'') LLM None, mk_node (js ''a'') CLI None]
        [mk_edge (js ''b'') (js ''c''), mk_edge (js ''a'') (js ''b''), mk_edge (js ''a'') (js ''c''), mk_edge (js ''c'') (js ''x'')]
       = [mk_node (js ''a'') CLI None, mk_node (js ''b'') LLM None, mk_node (js ''c'') PREVIEW None]"
proof -
  let ?ns = "[mk_node (js ''c'') PREVIEW None, mk_node (js ''b'') LLM None, mk_node (js ''a'') CLI None]"
  let ?es = "[mk_edge (js ''b'') (js ''c''), mk_edge (js ''a'') (js ''b''), mk_edge (js ''a'') (js ''c''), mk_edge (js ''c'') (js ''x'')]"
  have h1: "distinct (map node_id ?ns)" by (simp add: mk_node_def)
  have h2: "list_all (\<lambda>e. target e \<in> ids ?ns \<longrightarrow> source e \<in> ids ?ns) ?es"
    by (simp add: mk_node_def mk_edge_def ids_def)
  have h3: "acyclic (node_edges ?ns ?es)"
  proof (rule acyclicI_order)
    fix a b assume "(a, b) \<in> node_edges ?ns ?es"
    then have "(a, b) \<in> {(js ''b'', js ''c''), (js ''a'', js ''b''), (js ''a'', js ''c'')}"
      by (auto simp: node_edges_def edge_rel_def mk_node_def mk_edge_def ids_def split: if_splits)
    then show "(if b = js ''a'' then 2 else if b = js ''b'' then 1 else (0::nat))
             < (if a = js ''a'' then 2 else if a = js ''b'' then 1 else (0::nat))"
      by auto
  qed
  have r: "topologicalSort ?ns ?es
       = [mk_node (js ''a'') CLI None, mk_node (js ''b'') LLM None, mk_node (js ''c'') PREVIEW None]"
    by code_simp
  from topologicalSort_dag[OF h1 h2 h3] h1 h2 h3 r show ?thesis by blast
qed

theorem topologicalSort_dag_counterexample:
  "distinct (map node_id [mk_node (js ''v'') PREVIEW None])
   \<and> acyclic (edge_rel [mk_edge (js ''x'') (js ''v'')])
   \<and> topologicalSort [mk_node (js ''v'') PREVIEW None] [mk_edge (js ''x'') (js ''v'')] = []"
proof (intro conjI)
  show "distinct (map node_id [mk_node (js ''v'') PREVIEW None])" by simp
  show "acyclic (edge_rel [mk_edge (js ''x'') (js ''v'')])"
  proof (rule acyclicI_order)
    fix a b assume "(a, b) \<in> edge_rel [mk_edge (js ''x'') (js ''v'')]"
    then show "(if b = js ''x'' then 1 else (0::nat)) < (if a = js ''x'' then 1 else (0::nat))"
      by (simp add: edge_rel_def mk_edge_def)
  qed
  show "topologicalSort [mk_node (js ''v'') PREVIEW None] [mk_edge (js ''x'') (js ''v'')] = []"
    by code_simp
qed

theorem topologicalSort_any_graph_witness:
  "distinct (map node_id [mk_node (js ''a'') CLI None, mk_node (js ''b'') LLM None,
        mk_node (js ''c'') PREVIEW None, mk_node (js ''d'') INPUT None, mk_node (js ''e'') LLM None])
   \<and> distinct (topologicalSort
        [mk_node (js ''a'') CLI None, mk_node (js ''b'') LLM None,
         mk_node (js ''c'') PREVIEW None, mk_node (js ''d'') INPUT None, mk_node (js ''e'') LLM None]
        [mk_edge (js ''a'') (js ''b''), mk_edge (js ''b'') (js ''c''), mk_edge (js ''c'') (js ''b''),
         mk_edge (js ''d'') (js ''e''), mk_edge (js ''e'') (js ''d'')])
   \<and> (js ''b'', js ''b'') \<in> (edge_rel
        [mk_edge (js ''a'') (js ''b''), mk_edge (js ''b'') (js ''c''), mk_edge (js ''c'') (js ''b''),
         mk_edge (js ''d'') (js ''e''), mk_edge (js ''e'') (js ''d'')])\<^sup>+
   \<and> mk_node (js ''b'') LLM None \<notin> set (topologicalSort
        [mk_node (js ''a'') CLI None, mk_node (js ''b'') LLM None,
         mk_node (js ''c'') PREVIEW None, mk_node (js ''d'') INPUT None, mk_node (js ''e'') LLM None]
        [mk_edge (js ''a'') (js ''b''), mk_edge (js ''b'') (js ''c''), mk_edge (js ''c'') (js ''b''),
         mk_edge (js ''d'') (js ''e''), mk_edge (js ''e'') (js ''d'')])
   \<and> mk_node (js ''c'') PREVIEW None \<notin> set (topologicalSort
        [mk_node (js ''a'') CLI None, mk_node (js ''b'') LLM None,
         mk_node (js ''c'') PREVIEW None, mk_node (js ''d'') INPUT None, mk_node (js ''e'') LLM None]
        [mk_edge (js ''a'') (js ''b''), mk_edge (js ''b'') (js ''c''), mk_edge (js ''c'') (js ''b''),
         mk_edge (js ''d'') (js ''e''), mk_edge (js ''e'') (js ''d'')])
   \<and> mk_node (js ''a'') CLI None \<in> set (topologicalSort
        [mk_node (js ''a'') CLI None, mk_node (js ''b'') LLM None,
         mk_node (js ''c'') PREVIEW None, mk_node (js ''d'') INPUT None, mk_node (js ''e'') LLM None]
        [mk_edge (js ''a'') (js ''b''), mk_edge (js ''b'') (js ''c''), mk_edge (js ''c'') (js ''b''),
         mk_edge (js ''d'') (js ''e''), mk_edge (js ''e'') (js ''d'')])
   \<and> topologicalSort
        [mk_node (js ''a'') CLI None, mk_node (js ''b'') LLM None,
         mk_node (js ''c'') PREVIEW None, mk_node (js ''d'') INPUT None, mk_node (js ''e'') LLM None]
        [mk_edge (js ''a'') (js ''b''), mk_edge (js ''b'') (js ''c''), mk_edge (js ''c'') (js ''b''),
         mk_edge (js ''d'') (js ''e''), mk_edge (js ''e'') (js ''d'')]
       = [mk_node (js ''a'') CLI None]"
proof -
  let ?ns = "[mk_node (js ''a'') CLI None, mk_node (js ''b'') LLM None,
         mk_node (js ''c'') PREVIEW None, mk_node (js ''d'') INPUT None, mk_node (js ''e'') LLM None]"
  let ?es = "[mk_edge (js ''a'') (js ''b''), mk_edge (js ''b'') (js ''c''), mk_edge (js ''c'') (js ''b''),
         mk_edge (js ''d'') (js ''e''), mk_edge (js ''e'') (js ''d'')]"
  have h1: "distinct (map node_id ?ns)" by (simp add: mk_node_def)
  have bc: "(js ''b'', js ''c'') \<in> edge_rel ?es" and cb: "(js ''c'', js ''b'') \<in> edge_rel ?es"
    by (simp_all add: edge_rel_def mk_edge_def)
  from bc cb have bb: "(js ''b'', js ''b'') \<in> (edge_rel ?es)\<^sup>+" by (rule trancl_into_trancl2[OF _ r_into_trancl])
  from bc have bc': "(js ''b'', js ''c'') \<in> (edge_rel ?es)\<^sup>*" by (rule r_into_rtrancl)
  have noa: "(u, js ''a'') \<notin> edge_rel ?es" for u
    by (simp add: edge_rel_def mk_edge_def)
  have anc: "\<forall>u. (u, node_id (mk_node (js ''a'') CLI None)) \<in> (edge_rel ?es)\<^sup>* \<longrightarrow>
      u \<in> ids ?ns \<and> (u, u) \<notin> (edge_rel ?es)\<^sup>+"
  proof (intro allI impI)
    fix u assume "(u, node_id (mk_node (js ''a'') CLI None)) \<in> (edge_rel ?es)\<^sup>*"
    then have "(u, js ''a'') \<in> (edge_rel ?es)\<^sup>*" by (simp add: mk_node_def)
    then have u: "u = js ''a''" using noa by (cases rule: rtranclE) auto
    have "(js ''a'', js ''a'') \<notin> (edge_rel ?es)\<^sup>+"
    proof
      assume "(js ''a'', js ''a'') \<in> (edge_rel ?es)\<^sup>+"
      then show False using noa by (cases rule: tranclE) auto
    qed
    with u show "u \<in> ids ?ns \<and> (u, u) \<notin> (edge_rel ?es)\<^sup>+"
      by (simp add: ids_def mk_node_def)
  qed
  from topologicalSort_any_graph[OF h1, of ?es]
  have d: "distinct (topologicalSort ?ns ?es)"
    and iff: "list_all (\<lambda>n. n \<in> set (topologicalSort ?ns ?es) \<longleftrightarrow>
          (\<forall>u. (u, node_id n) \<in> (edge_rel ?es)\<^sup>* \<longrightarrow>
               u \<in> ids ?ns \<and> (u, u) \<notin> (edge_rel ?es)\<^sup>+)) ?ns"
    by blast+
  from iff have b: "mk_node (js ''b'') LLM None \<in> set (topologicalSort ?ns ?es) \<longleftrightarrow>
          (\<forall>u. (u, node_id (mk_node (js ''b'') LLM None)) \<in> (edge_rel ?es)\<^sup>* \<longrightarrow>
               u \<in> ids ?ns \<and> (u, u) \<notin> (edge_rel ?es)\<^sup>+)"
    and c: "mk_node (js ''c'') PREVIEW None \<in> set (topologicalSort ?ns ?es) \<longleftrightarrow>
          (\<forall>u. (u, node_id (mk_node (js ''c'') PREVIEW None)) \<in> (edge_rel ?es)\<^sup>* \<longrightarrow>
               u \<in> ids ?ns \<and> (u, u) \<notin> (edge_rel ?es)\<^sup>+)"
    and a: "mk_node (js ''a'') CLI None \<in> set (topologicalSort ?ns ?es) \<longleftrightarrow>
          (\<forall>u. (u, node_id (mk_node (js ''a'') CLI None)) \<in> (edge_rel ?es)\<^sup>* \<longrightarrow>
               u \<in> ids ?ns \<and> (u, u) \<notin> (edge_rel ?es)\<^sup>+)"
    unfolding list_all_iff by simp_all
  have idb: "node_id (mk_node (js ''b'') LLM None) = js ''b''"
    and idc: "node_id (mk_node (js ''c'') PREVIEW None) = js ''c''"
    by (simp_all add: mk_node_def)
  from b bb have nb: "mk_node (js ''b'') LLM None \<notin> set (topologicalSort ?ns ?es)"
    unfolding idb by blast
  from c bb bc' have nc: "mk_node (js ''c'') PREVIEW None \<notin> set (topologicalSort ?ns ?es)"
    unfolding idc by blast
  from a anc have ia: "mk_node (js ''a'') CLI None \<in> set (topologicalSort ?ns ?es)" by blast
  have r: "topologicalSort ?ns ?es = [mk_node (js ''a'') CLI None]" by code_simp
  from h1 d bb nb nc ia r show ?thesis by blast
qed

text \<open>
  The claim as stated fails on two input nodes with one identifier: \<open>nodeIndex\<close> keeps
  the second, the queue holds the identifier twice, and the result holds the second node
  twice.
\<close>

theorem topologicalSort_any_graph_counterexample:
  "topologicalSort [mk_node (js ''a'') CLI None, mk_node (js ''a'') LLM None] []
     = [mk_node (js ''a'') LLM None, mk_node (js ''a'') LLM None]
   \<and> \<not> distinct (topologicalSort [mk_node (js ''a'') CLI None, mk_node (js ''a'') LLM None] [])"
proof -
  have r: "topologicalSort [mk_node (js ''a'') CLI None, mk_node (js ''a'') LLM None] []
     = [mk_node (js ''a'') LLM None, mk_node (js ''a'') LLM None]"
    by code_simp
  then show ?thesis by simp
qed

section \<open>Traces of a run\<close>

definition event_node :: "Event \<Rightarrow> js_string option" where
  "event_node e =
     (case e of
        NodeExecutionStatus i s r \<Rightarrow> Some i
      | TokenCount i n \<Rightarrow> Some i
      | ApprovalRequested i \<Rightarrow> Some i
      | ShellExecute i c \<Rightarrow> Some i
      | ChatRequest i p \<Rightarrow> Some i
      | TokenEncode i t \<Rightarrow> Some i
      | CorpusLookup i \<Rightarrow> Some i
      | RetrieveContext i t \<Rightarrow> Some i
      | _ \<Rightarrow> None)"

definition is_failure_status :: "Event \<Rightarrow> bool" where
  "is_failure_status e =
     (case e of NodeExecutionStatus i s r \<Rightarrow> s = Failed \<or> s = Interrupted | _ \<Rightarrow> False)"

text \<open>
  The events of a node's execution other than the report of a CLI failure: no
  \<open>error\<close> or \<open>interrupted\<close> status, no \<open>execution_completed\<close>, and no other node's
  identifier.
\<close>

definition quiet :: "js_string \<Rightarrow> Event \<Rightarrow> bool" where
  "quiet i e \<longleftrightarrow>
     \<not> is_failure_status e \<and> e \<noteq> ExecutionCompleted
     \<and> (event_node e = None \<or> event_node e = Some i)"

definition emits :: "(Event \<Rightarrow> bool) \<Rightarrow> 'w RunState \<Rightarrow> 'w RunState \<Rightarrow> bool" where
  "emits P st st' \<longleftrightarrow> (\<exists>evs. trace st' = trace st @ evs \<and> list_all P evs)"

lemma emits_refl [simp]: "emits P st st"
  by (simp add: emits_def)

lemma emits_emit: "emits P st st' \<Longrightarrow> P e \<Longrightarrow> emits P st (emit e st')"
  by (auto simp: emits_def emit_def)

lemma emits_world [simp]: "emits P st (st'\<lparr> world := w \<rparr>) = emits P st st'"
  by (simp add: emits_def)

lemma emits_ctx [simp]: "emits P st (st'\<lparr> ctx := c \<rparr>) = emits P st st'"
  by (simp add: emits_def)

lemma emits_trans: "emits P a b \<Longrightarrow> emits P b c \<Longrightarrow> emits P a c"
  by (auto simp: emits_def)

lemma emits_mono: "emits P a b \<Longrightarrow> (\<And>e. P e \<Longrightarrow> Q e) \<Longrightarrow> emits Q a b"
  by (auto simp: emits_def list_all_iff)

lemma quiet_simps [simp]:
  "quiet i (NodeExecutionStatus j s r) \<longleftrightarrow> j = i \<and> s \<noteq> Failed \<and> s \<noteq> Interrupted"
  "quiet i (TokenCount j n) \<longleftrightarrow> j = i"
  "quiet i (ApprovalRequested j) \<longleftrightarrow> j = i"
  "quiet i (ShellExecute j c) \<longleftrightarrow> j = i"
  "quiet i (ChatRequest j p) \<longleftrightarrow> j = i"
  "quiet i (TokenEncode j t) \<longleftrightarrow> j = i"
  "quiet i (CorpusLookup j) \<longleftrightarrow> j = i"
  "quiet i (RetrieveContext j t) \<longleftrightarrow> j = i"
  "quiet i (ShowErrorMessage m)"
  "quiet i ShellDispose"
  "quiet i ExecutionStarted"
  "\<not> quiet i ExecutionCompleted"
  by (auto simp: quiet_def is_failure_status_def event_node_def)

lemma request_approval_emits:
  "request_approval env node c st = (r, st') \<Longrightarrow> emits (quiet (node_id node)) st st'"
  by (auto simp: request_approval_def Let_def split: if_splits prod.splits sum.splits option.splits
           intro!: emits_emit)

lemma executeCLINode_emits:
  assumes "executeCLINode env node st = (r, st')"
  shows "emits (quiet (node_id node)) st st'"
proof (cases "\<not> shell_available env (world st) \<or> \<not> workspace_trusted env (world st)")
  case True
  with assms show ?thesis by (auto simp: executeCLINode_def)
next
  case False
  note ok = this
  show ?thesis
  proof (cases "content (data node)")
    case None
    with assms ok show ?thesis by (auto simp: executeCLINode_def)
  next
    case (Some c)
    show ?thesis
    proof (cases "js_trim c = []")
      case True
      with assms ok Some show ?thesis by (auto simp: executeCLINode_def)
    next
      case False
      let ?cq = "convert_quotes None (expand_home (homeDir env) (path_sep env) c)"
      obtain a st1 where ra: "request_approval env node ?cq st = (a, st1)"
        by (cases "request_approval env node ?cq st")
      then have e1: "emits (quiet (node_id node)) st st1" by (rule request_approval_emits)
      from assms ok Some False ra e1 show ?thesis
        by (auto simp: executeCLINode_def Let_def split: sum.splits if_splits prod.splits
                 intro!: emits_emit)
    qed
  qed
qed

lemma executeLLMNode_emits:
  "executeLLMNode env node st = (r, st') \<Longrightarrow> emits (quiet (node_id node)) st st'"
  by (auto simp: executeLLMNode_def Let_def split: option.splits if_splits prod.splits sum.splits
           intro!: emits_emit)

lemma executePreviewNode_emits:
  "executePreviewNode env input i st = (r, st') \<Longrightarrow> emits (quiet i) st st'"
  by (auto simp: executePreviewNode_def Let_def split: prod.splits sum.splits
           intro!: emits_emit)

lemma executeSearchContextNode_emits:
  "executeSearchContextNode env input i st = (r, st') \<Longrightarrow> emits (quiet i) st st'"
  by (auto simp: executeSearchContextNode_def Let_def
           split: prod.splits sum.splits CorpusItems.splits if_splits
           intro!: emits_emit)

lemma ctx_emit [simp]: "ctx (emit e st) = ctx st"
  by (simp add: emit_def)

lemma world_emit [simp]: "world (emit e st) = world st"
  by (simp add: emit_def)

lemma trace_emit [simp]: "trace (emit e st) = trace st @ [e]"
  by (simp add: emit_def)

lemma node_id_with_content [simp]: "node_id (with_content node c) = node_id node"
  by (simp add: with_content_def)

lemma node_id_cli_request [simp]: "node_id (cli_request node c) = node_id node"
  by (simp add: cli_request_def Let_def)

lemma node_id_llm_request [simp]: "node_id (llm_request node c) = node_id node"
  by (simp add: llm_request_def Let_def)

lemma emits_start:
  "emits P (emit e st) st' \<Longrightarrow> P e \<Longrightarrow> emits P st st'"
  by (auto simp: emits_def)

lemma complete_emits:
  "complete node result st1 = Continue st' \<Longrightarrow> emits (quiet (node_id node)) st st1
   \<Longrightarrow> emits (quiet (node_id node)) st st'"
  by (auto simp: complete_def intro!: emits_emit)

lemma run_node_CLI:
  "node_type node = CLI \<Longrightarrow>
   run_node env node st =
     (case executeCLINode env (cli_request node (ctx st))
             (emit (NodeExecutionStatus (node_id node) Running None) st) of
        (Inl errorMessage, st1) \<Rightarrow> cli_failed node errorMessage st1
      | (Inr result, st1) \<Rightarrow> complete node result st1)"
  by (simp add: run_node_def)

lemma run_node_LLM:
  "node_type node = LLM \<Longrightarrow>
   run_node env node st =
     (case executeLLMNode env (llm_request node (ctx st))
             (emit (NodeExecutionStatus (node_id node) Running None) st) of
        (Inl err, st1) \<Rightarrow> Throw err st1
      | (Inr result, st1) \<Rightarrow> complete node result st1)"
  by (simp add: run_node_def)

lemma run_node_OTHER:
  "node_type node = OTHER t \<Longrightarrow>
   run_node env node st =
     Throw (js ''Unknown node type: '' @ t)
       (emit ShellDispose (emit (NodeExecutionStatus (node_id node) Running None) st))"
  by (simp add: run_node_def)

lemma run_node_quiet:
  assumes "run_node env node st = r" and "\<forall>st'. r \<noteq> Return st'"
  shows "emits (quiet (node_id node)) st (step_state r)"
proof -
  let ?i = "node_id node"
  let ?st0 = "emit (NodeExecutionStatus ?i Running None) st"
  have st0: "emits (quiet ?i) st ?st0" by (intro emits_emit) simp_all
  show ?thesis
  proof (cases "node_type node")
    case CLI
    obtain a st1 where ex: "executeCLINode env (cli_request node (ctx st)) ?st0 = (a, st1)"
      by (cases "executeCLINode env (cli_request node (ctx st)) ?st0")
    from executeCLINode_emits[OF ex] st0 have "emits (quiet ?i) st st1"
      by (auto intro: emits_trans)
    with assms ex CLI show ?thesis
      by (cases a) (auto simp: run_node_CLI cli_failed_def complete_def step_state_def Let_def
                         intro!: emits_emit)
  next
    case LLM
    obtain a st1 where ex: "executeLLMNode env (llm_request node (ctx st)) ?st0 = (a, st1)"
      by (cases "executeLLMNode env (llm_request node (ctx st)) ?st0")
    from executeLLMNode_emits[OF ex] st0 have "emits (quiet ?i) st st1"
      by (auto intro: emits_trans)
    with assms(1) ex LLM show ?thesis
      by (cases a) (auto simp: run_node_LLM complete_def step_state_def intro!: emits_emit)
  next
    case PREVIEW
    let ?in = "js_join [0x0A] (combineParentOutputsByConnectionOrder ?i (ctx st))"
    obtain a st1 where ex: "executePreviewNode env ?in ?i ?st0 = (a, st1)"
      by (cases "executePreviewNode env ?in ?i ?st0")
    from executePreviewNode_emits[OF ex] st0 have "emits (quiet ?i) st st1"
      by (auto intro: emits_trans)
    with assms(1) ex PREVIEW show ?thesis
      by (cases a) (auto simp: run_node_def complete_def step_state_def intro!: emits_emit)
  next
    case INPUT
    with assms(1) st0 show ?thesis
      by (auto simp: run_node_def complete_def step_state_def Let_def intro!: emits_emit)
  next
    case SEARCH_CONTEXT
    let ?in = "render (content (data node)) (combineParentOutputsByConnectionOrder ?i (ctx st))"
    obtain a st1 where ex: "executeSearchContextNode env ?in ?i ?st0 = (a, st1)"
      by (cases "executeSearchContextNode env ?in ?i ?st0")
    from executeSearchContextNode_emits[OF ex] st0 have "emits (quiet ?i) st st1"
      by (auto intro: emits_trans)
    with assms(1) ex SEARCH_CONTEXT show ?thesis
      by (cases a) (auto simp: run_node_def complete_def step_state_def Let_def intro!: emits_emit)
  next
    case (OTHER t)
    with assms(1) st0 show ?thesis
      by (auto simp: run_node_OTHER step_state_def intro!: emits_emit)
  qed
qed

lemma run_node_Return:
  assumes "run_node env node st = Return st'"
  shows "\<exists>msg st1. node_type node = CLI
           \<and> executeCLINode env (cli_request node (ctx st))
                (emit (NodeExecutionStatus (node_id node) Running None) st) = (Inl msg, st1)
           \<and> cli_failed node msg st1 = Return st'"
proof (cases "node_type node")
  case CLI
  obtain a st1 where ex: "executeCLINode env (cli_request node (ctx st))
      (emit (NodeExecutionStatus (node_id node) Running None) st) = (a, st1)"
    by (cases "executeCLINode env (cli_request node (ctx st))
      (emit (NodeExecutionStatus (node_id node) Running None) st)")
  with assms CLI show ?thesis
    by (cases a) (auto simp: run_node_CLI complete_def)
qed (use assms in \<open>auto simp: run_node_def complete_def Let_def split: prod.splits sum.splits\<close>)

lemma execute_nodes_append:
  "execute_nodes env skip (pre @ rest) st =
     (case execute_nodes env skip pre st of
        Continue st' \<Rightarrow> execute_nodes env skip rest st'
      | Return st' \<Rightarrow> Return st'
      | Throw err st' \<Rightarrow> Throw err st')"
  by (induction pre arbitrary: st) (auto split: Step.splits)

text \<open>An event names no node, or a node of the list that is not skipped.\<close>

definition allowed :: "js_string list \<Rightarrow> WorkflowNode list \<Rightarrow> Event \<Rightarrow> bool" where
  "allowed skip ns e =
     (case event_node e of None \<Rightarrow> True | Some i \<Rightarrow> i \<notin> set skip \<and> i \<in> node_id ` set ns)"

definition loop_quiet :: "js_string list \<Rightarrow> WorkflowNode list \<Rightarrow> Event \<Rightarrow> bool" where
  "loop_quiet skip ns e \<longleftrightarrow>
     allowed skip ns e \<and> \<not> is_failure_status e \<and> e \<noteq> ExecutionCompleted"

lemma quiet_loop_quiet:
  "quiet (node_id n) e \<Longrightarrow> node_id n \<notin> set skip \<Longrightarrow> n \<in> set ns \<Longrightarrow> loop_quiet skip ns e"
  by (auto simp: quiet_def loop_quiet_def allowed_def)

lemma loop_quiet_Cons: "loop_quiet skip ns e \<Longrightarrow> loop_quiet skip (n # ns) e"
  by (auto simp: loop_quiet_def allowed_def split: option.splits)

lemma allowed_Cons: "allowed skip ns e \<Longrightarrow> allowed skip (n # ns) e"
  by (auto simp: allowed_def split: option.splits)

lemma execute_nodes_quiet:
  "execute_nodes env skip ns st = r \<Longrightarrow> \<forall>st'. r \<noteq> Return st' \<Longrightarrow>
   emits (loop_quiet skip ns) st (step_state r)"
proof (induction ns arbitrary: st)
  case Nil
  then show ?case by (auto simp: step_state_def)
next
  case (Cons n ns)
  show ?case
  proof (cases "node_id n \<in> set skip")
    case True
    with Cons.prems have "execute_nodes env skip ns st = r" by simp
    from Cons.IH[OF this Cons.prems(2)] show ?thesis
      by (rule emits_mono) (rule loop_quiet_Cons)
  next
    case False
    show ?thesis
    proof (cases "run_node env n st")
      case (Continue st1)
      from run_node_quiet[OF Continue] have "emits (quiet (node_id n)) st st1"
        by (simp add: step_state_def)
      then have a: "emits (loop_quiet skip (n # ns)) st st1"
        using False by (auto elim!: emits_mono intro: quiet_loop_quiet)
      from Cons.prems False Continue have "execute_nodes env skip ns st1 = r" by simp
      from Cons.IH[OF this Cons.prems(2)] have "emits (loop_quiet skip (n # ns)) st1 (step_state r)"
        by (rule emits_mono) (rule loop_quiet_Cons)
      with a show ?thesis by (rule emits_trans)
    next
      case (Return st1)
      with Cons.prems False have "r = Return st1" by simp
      with Cons.prems(2) show ?thesis by blast
    next
      case (Throw err st1)
      from run_node_quiet[OF Throw] have "emits (quiet (node_id n)) st st1"
        by (simp add: step_state_def)
      then have "emits (loop_quiet skip (n # ns)) st st1"
        using False by (auto elim!: emits_mono intro: quiet_loop_quiet)
      with Cons.prems False Throw show ?thesis by (auto simp: step_state_def)
    qed
  qed
qed

lemma run_node_allowed:
  assumes "run_node env n st = r" and "node_id n \<notin> set skip" and "n \<in> set ns"
  shows "emits (allowed skip ns) st (step_state r)"
proof (cases "\<forall>st'. r \<noteq> Return st'")
  case True
  from run_node_quiet[OF assms(1) True] show ?thesis
    by (rule emits_mono) (use assms(2,3) in \<open>auto simp: quiet_def allowed_def\<close>)
next
  case False
  then obtain st' where r: "r = Return st'" by blast
  from run_node_Return[OF assms(1)[unfolded r]] obtain msg st1 where
    ex: "executeCLINode env (cli_request n (ctx st))
          (emit (NodeExecutionStatus (node_id n) Running None) st) = (Inl msg, st1)"
    and cf: "cli_failed n msg st1 = Return st'" by blast
  have "emits (quiet (node_id n)) st (emit (NodeExecutionStatus (node_id n) Running None) st)"
    by (intro emits_emit) simp_all
  with executeCLINode_emits[OF ex] have "emits (quiet (node_id n)) st st1"
    by (auto intro: emits_trans)
  then have "emits (allowed skip ns) st st1"
    by (rule emits_mono) (use assms(2,3) in \<open>auto simp: quiet_def allowed_def\<close>)
  with cf show ?thesis unfolding r
    by (auto simp: cli_failed_def step_state_def Let_def allowed_def event_node_def assms(2,3)
             intro!: emits_emit)
qed

lemma execute_nodes_allowed:
  "execute_nodes env skip ns st = r \<Longrightarrow> emits (allowed skip ns) st (step_state r)"
proof (induction ns arbitrary: st)
  case Nil
  then show ?case by (auto simp: step_state_def)
next
  case (Cons n ns)
  show ?case
  proof (cases "node_id n \<in> set skip")
    case True
    with Cons.prems have "execute_nodes env skip ns st = r" by simp
    from Cons.IH[OF this] show ?thesis
      by (rule emits_mono) (rule allowed_Cons)
  next
    case False
    have rn: "emits (allowed skip (n # ns)) st (step_state (run_node env n st))"
      by (rule run_node_allowed[OF refl False]) simp
    show ?thesis
    proof (cases "run_node env n st")
      case (Continue st1)
      with Cons.prems False have "execute_nodes env skip ns st1 = r" by simp
      from Cons.IH[OF this] have "emits (allowed skip (n # ns)) st1 (step_state r)"
        by (rule emits_mono) (rule allowed_Cons)
      with rn Continue show ?thesis by (auto simp: step_state_def intro: emits_trans)
    next
      case (Return st1)
      with Cons.prems False rn show ?thesis by auto
    next
      case (Throw err st1)
      with Cons.prems False rn show ?thesis by auto
    qed
  qed
qed

section \<open>Failures of a node and the end of the run\<close>

lemma trace_initial_state [simp]: "trace (initial_state edges w) = [ExecutionStarted]"
  by (simp add: initial_state_def)

lemma emits_list_all:
  "emits P st st' \<Longrightarrow> list_all P (trace st) \<Longrightarrow> list_all P (trace st')"
  by (auto simp: emits_def)

lemma reached_trace:
  assumes "execute_nodes env skip pre (initial_state edges w) = Continue st"
  shows "list_all (loop_quiet skip pre) (trace st)"
proof -
  from execute_nodes_quiet[OF assms] have "emits (loop_quiet skip pre) (initial_state edges w) st"
    by (simp add: step_state_def)
  then show ?thesis
    by (rule emits_list_all) (simp add: loop_quiet_def allowed_def event_node_def is_failure_status_def)
qed

lemma loop_quiet_filter_failure:
  "list_all (loop_quiet skip ns) evs \<Longrightarrow> filter is_failure_status evs = []"
  by (auto simp: list_all_iff filter_empty_conv loop_quiet_def)

lemma loop_quiet_filter_completed:
  "list_all (loop_quiet skip ns) evs \<Longrightarrow> filter (\<lambda>e. e = ExecutionCompleted) evs = []"
  by (auto simp: list_all_iff filter_empty_conv loop_quiet_def)

lemma loop_quiet_allowed:
  "list_all (loop_quiet skip ns) evs \<Longrightarrow> list_all (allowed skip (ns @ others)) evs"
  by (auto simp: list_all_iff loop_quiet_def allowed_def split: option.splits)

lemma quiet_allowed:
  "emits (quiet (node_id n)) st st1 \<Longrightarrow> node_id n \<notin> set skip \<Longrightarrow>
   emits (allowed skip (pre @ [n])) st st1"
  by (erule emits_mono) (auto simp: quiet_def allowed_def)

text \<open>
  C2. When the run reaches a CLI node (the nodes \<open>pre\<close> before it in the sorted list
  have been executed and the loop goes on) and the node's executor throws with message
  \<open>msg\<close>, \<open>executeWorkflow\<close> resolves; after the events of the executor the trace ends with
  the disposal of the shell, the error notification, the status \<open>error\<close> (\<open>interrupted\<close>
  when the message contains \<open>aborted\<close>) of that node, and \<open>execution_completed\<close>. It is the
  only \<open>error\<close> or \<open>interrupted\<close> status and the only \<open>execution_completed\<close> of the trace,
  and every event of the trace that names a node names one of \<open>pre\<close> or the failed node:
  the nodes after it in the sorted list are not executed.
\<close>

theorem cli_failure_ends_run:
  assumes sorted: "topologicalSort nodes edges = pre @ node # rest"
    and reached: "execute_nodes env (allInactiveNodes nodes edges) pre (initial_state edges w)
                    = Continue st"
    and not_skipped: "node_id node \<notin> set (allInactiveNodes nodes edges)"
    and cli: "node_type node = CLI"
    and throws: "executeCLINode env (cli_request node (ctx st))
                   (emit (NodeExecutionStatus (node_id node) Running None) st) = (Inl msg, st1)"
  shows "\<exists>st2. executeWorkflow env nodes edges w = Resolved st2
     \<and> trace st2 = trace st1 @
          [ShellDispose,
           ShowErrorMessage (js ''CLI Node Error: '' @ msg),
           NodeExecutionStatus (node_id node)
             (if js_includes msg (js ''aborted'') then Interrupted else Failed) (Some msg),
           ExecutionCompleted]
     \<and> filter is_failure_status (trace st2) =
          [NodeExecutionStatus (node_id node)
             (if js_includes msg (js ''aborted'') then Interrupted else Failed) (Some msg)]
     \<and> filter (\<lambda>e. e = ExecutionCompleted) (trace st2) = [ExecutionCompleted]
     \<and> list_all (allowed (allInactiveNodes nodes edges) (pre @ [node])) (trace st2)"
proof -
  let ?skip = "allInactiveNodes nodes edges"
  let ?status = "if js_includes msg (js ''aborted'') then Interrupted else Failed"
  let ?tail = "[ShellDispose, ShowErrorMessage (js ''CLI Node Error: '' @ msg),
               NodeExecutionStatus (node_id node) ?status (Some msg), ExecutionCompleted]"
  define st2 where "st2 = st1\<lparr> trace := trace st1 @ ?tail \<rparr>"
  have cf: "cli_failed node msg st1 = Return st2"
    by (simp add: cli_failed_def Let_def emit_def st2_def)
  have rn: "run_node env node st = Return st2"
    using throws cf by (simp add: run_node_CLI[OF cli])
  have "execute_nodes env ?skip (pre @ node # rest) (initial_state edges w) = Return st2"
    using reached not_skipped rn by (simp add: execute_nodes_append)
  then have res: "executeWorkflow env nodes edges w = Resolved st2"
    by (simp add: executeWorkflow_def sorted)
  have tr: "trace st2 = trace st1 @ ?tail" by (simp add: st2_def)
  have pre_q: "list_all (loop_quiet ?skip pre) (trace st)" using reached by (rule reached_trace)
  have "emits (quiet (node_id node)) st (emit (NodeExecutionStatus (node_id node) Running None) st)"
    by (intro emits_emit) simp_all
  with executeCLINode_emits[OF throws] have ex_q: "emits (quiet (node_id node)) st st1"
    by (auto intro: emits_trans)
  then obtain evs where evs: "trace st1 = trace st @ evs" "list_all (quiet (node_id node)) evs"
    by (auto simp: emits_def)
  have f1: "filter is_failure_status (trace st1) = []"
    using loop_quiet_filter_failure[OF pre_q] evs
    by (auto simp: filter_empty_conv list_all_iff quiet_def)
  have f2: "filter (\<lambda>e. e = ExecutionCompleted) (trace st1) = []"
    using loop_quiet_filter_completed[OF pre_q] evs
    by (auto simp: filter_empty_conv list_all_iff quiet_def)
  have al: "list_all (allowed ?skip (pre @ [node])) (trace st1)"
    using emits_list_all[OF quiet_allowed[OF ex_q not_skipped, of pre] loop_quiet_allowed[OF pre_q]]
    by simp
  have "filter is_failure_status (trace st2) = [NodeExecutionStatus (node_id node) ?status (Some msg)]"
    unfolding tr using f1 by (simp add: is_failure_status_def)
  moreover have "filter (\<lambda>e. e = ExecutionCompleted) (trace st2) = [ExecutionCompleted]"
    unfolding tr using f2 by simp
  moreover have "list_all (allowed ?skip (pre @ [node])) (trace st2)"
    unfolding tr using al not_skipped by (simp add: allowed_def event_node_def)
  ultimately show ?thesis using res tr by blast
qed

text \<open>
  C10. When the run reaches a node whose type is none of the five known kinds,
  \<open>executeWorkflow\<close> rejects with \<open>Unknown node type\<close>; after the events of the nodes
  before it the trace holds the \<open>running\<close> status of the node and the disposal of the
  shell and nothing else: no \<open>execution_completed\<close>, no event of a later node, and (the
  node identifiers being distinct) no \<open>completed\<close> status of the node.
\<close>

theorem unknown_node_type_rejects:
  assumes sorted: "topologicalSort nodes edges = pre @ node # rest"
    and reached: "execute_nodes env (allInactiveNodes nodes edges) pre (initial_state edges w)
                    = Continue st"
    and not_skipped: "node_id node \<notin> set (allInactiveNodes nodes edges)"
    and other: "node_type node = OTHER t"
  shows "executeWorkflow env nodes edges w =
           Rejected (js ''Unknown node type: '' @ t)
             (emit ShellDispose (emit (NodeExecutionStatus (node_id node) Running None) st))
     \<and> trace (final_state (executeWorkflow env nodes edges w)) =
           trace st @ [NodeExecutionStatus (node_id node) Running None, ShellDispose]
     \<and> ExecutionCompleted \<notin> set (trace (final_state (executeWorkflow env nodes edges w)))
     \<and> list_all (allowed (allInactiveNodes nodes edges) (pre @ [node]))
          (trace (final_state (executeWorkflow env nodes edges w)))
     \<and> (distinct (map node_id nodes) \<longrightarrow>
          (\<forall>r. NodeExecutionStatus (node_id node) Completed r
                 \<notin> set (trace (final_state (executeWorkflow env nodes edges w)))))"
proof -
  let ?skip = "allInactiveNodes nodes edges"
  let ?st' = "emit ShellDispose (emit (NodeExecutionStatus (node_id node) Running None) st)"
  have rn: "run_node env node st = Throw (js ''Unknown node type: '' @ t) ?st'"
    by (rule run_node_OTHER[OF other])
  have "execute_nodes env ?skip (pre @ node # rest) (initial_state edges w)
      = Throw (js ''Unknown node type: '' @ t) ?st'"
    using reached not_skipped rn by (simp add: execute_nodes_append)
  then have res: "executeWorkflow env nodes edges w = Rejected (js ''Unknown node type: '' @ t) ?st'"
    by (simp add: executeWorkflow_def sorted)
  have fin: "final_state (executeWorkflow env nodes edges w) = ?st'"
    by (simp add: res final_state_def)
  have tr: "trace ?st' = trace st @ [NodeExecutionStatus (node_id node) Running None, ShellDispose]"
    by simp
  have pre_q: "list_all (loop_quiet ?skip pre) (trace st)" using reached by (rule reached_trace)
  have nc: "ExecutionCompleted \<notin> set (trace ?st')"
    using pre_q by (auto simp: list_all_iff loop_quiet_def)
  have al: "list_all (allowed ?skip (pre @ [node])) (trace ?st')"
    unfolding tr using loop_quiet_allowed[OF pre_q, of "[node]"] not_skipped
    by (simp add: allowed_def event_node_def)
  have "\<forall>r. NodeExecutionStatus (node_id node) Completed r \<notin> set (trace ?st')"
    if d: "distinct (map node_id nodes)"
  proof -
    have "distinct (map node_id (topologicalSort nodes edges))"
      using topologicalSort_ids[OF d, of edges] kahn_inv_def sorted_ids_inv[OF d, of edges]
      by auto
    then have "node_id node \<notin> node_id ` set pre" unfolding sorted by auto
    then show ?thesis
      using pre_q
      by (auto simp: list_all_iff loop_quiet_def allowed_def event_node_def split: option.splits)
  qed
  with res fin tr nc al show ?thesis by simp
qed

section \<open>Example runs\<close>

text \<open>
  A small outside world for the examples: no state, a shell that is available and
  trusted, and fixed answers of the approval handler, the shell and the chat client.
\<close>

definition example_env :: "js_string option \<Rightarrow> (js_string + js_string) \<Rightarrow> ChatRun \<Rightarrow> unit Collaborators" where
  "example_env approval shell_result chat_run =
     \<lparr> shell_available = (\<lambda>w. True),
       workspace_trusted = (\<lambda>w. True),
       homeDir = js ''/home/u'',
       path_sep = js ''/'',
       approvalHandler = (\<lambda>i w. (Inr approval, w)),
       shell_execute = (\<lambda>c w. (shell_result, w)),
       chat = (\<lambda>n w. (chat_run, w)),
       token_encode = (\<lambda>t w. (Inr (length t), w)),
       corpus_items = (\<lambda>w. (Inr (Items []), w)),
       retrieveContext = (\<lambda>t w. (Inr [], w)) \<rparr>"

definition completes :: "js_string \<Rightarrow> ChatRun" where
  "completes response = \<lparr> outcome = ChatStream [Change response, Complete] None, timer = None \<rparr>"

definition stream_fails :: "js_string \<Rightarrow> ChatRun" where
  "stream_fails message =
     \<lparr> outcome = ChatStream [StreamError (JsError (js ''Error'') message)] None, timer = None \<rparr>"

definition rejection :: "'w Outcome \<Rightarrow> js_string option" where
  "rejection r = (case r of Resolved st \<Rightarrow> None | Rejected err st \<Rightarrow> Some err)"

text \<open>The chain \<open>a \<rightarrow> b \<rightarrow> c\<close> of an input node, a node \<open>b\<close> to choose, and a preview node.\<close>

definition chain_nodes :: "WorkflowNode \<Rightarrow> WorkflowNode list" where
  "chain_nodes b = [mk_node (js ''a'') INPUT (Some (js ''abc'')), b, mk_node (js ''c'') PREVIEW None]"

definition chain_edges :: "Edge list" where
  "chain_edges = [mk_edge (js ''a'') (js ''b''), mk_edge (js ''b'') (js ''c'')]"

text \<open>The state in which the run of a chain reaches \<open>b\<close>.\<close>

definition chain_reached :: "unit Collaborators \<Rightarrow> unit RunState" where
  "chain_reached env =
     step_state (execute_nodes env [] [mk_node (js ''a'') INPUT (Some (js ''abc''))]
                   (initial_state chain_edges ()))"

theorem cli_failure_ends_run_witness:
  "topologicalSort (chain_nodes (mk_node (js ''b'') CLI (Some (js ''sudo ${1}'')))) chain_edges
     = [mk_node (js ''a'') INPUT (Some (js ''abc''))] @ mk_node (js ''b'') CLI (Some (js ''sudo ${1}''))
       # [mk_node (js ''c'') PREVIEW None]
   \<and> execute_nodes (example_env None (Inr (js ''out'')) (completes (js ''hi'')))
        (allInactiveNodes (chain_nodes (mk_node (js ''b'') CLI (Some (js ''sudo ${1}'')))) chain_edges)
        [mk_node (js ''a'') INPUT (Some (js ''abc''))] (initial_state chain_edges ())
     = Continue (chain_reached (example_env None (Inr (js ''out'')) (completes (js ''hi''))))
   \<and> node_id (mk_node (js ''b'') CLI (Some (js ''sudo ${1}'')))
       \<notin> set (allInactiveNodes (chain_nodes (mk_node (js ''b'') CLI (Some (js ''sudo ${1}'')))) chain_edges)
   \<and> node_type (mk_node (js ''b'') CLI (Some (js ''sudo ${1}''))) = CLI
   \<and> fst (executeCLINode (example_env None (Inr (js ''out'')) (completes (js ''hi'')))
        (cli_request (mk_node (js ''b'') CLI (Some (js ''sudo ${1}'')))
           (ctx (chain_reached (example_env None (Inr (js ''out'')) (completes (js ''hi''))))))
        (emit (NodeExecutionStatus (js ''b'') Running None)
           (chain_reached (example_env None (Inr (js ''out'')) (completes (js ''hi''))))))
     = Inl (js ''Cody cannot execute this command'')
   \<and> trace (final_state (executeWorkflow (example_env None (Inr (js ''out'')) (completes (js ''hi'')))
        (chain_nodes (mk_node (js ''b'') CLI (Some (js ''sudo ${1}'')))) chain_edges ()))
     = [ExecutionStarted,
        NodeExecutionStatus (js ''a'') Running None,
        NodeExecutionStatus (js ''a'') Completed (Some (js ''abc'')),
        NodeExecutionStatus (js ''b'') Running None,
        ShowErrorMessage (js ''Cody cannot execute this command''),
        ShellDispose,
        ShowErrorMessage (js ''CLI Node Error: Cody cannot execute this command''),
        NodeExecutionStatus (js ''b'') Failed (Some (js ''Cody cannot execute this command'')),
        ExecutionCompleted]"
proof -
  let ?env = "example_env None (Inr (js ''out'')) (completes (js ''hi''))"
  let ?b = "mk_node (js ''b'') CLI (Some (js ''sudo ${1}''))"
  let ?st = "chain_reached ?env"
  let ?run = "executeCLINode ?env (cli_request ?b (ctx ?st))
                (emit (NodeExecutionStatus (js ''b'') Running None) ?st)"
  have h1: "topologicalSort (chain_nodes ?b) chain_edges
      = [mk_node (js ''a'') INPUT (Some (js ''abc''))] @ ?b # [mk_node (js ''c'') PREVIEW None]"
    by code_simp
  have h2: "execute_nodes ?env (allInactiveNodes (chain_nodes ?b) chain_edges)
      [mk_node (js ''a'') INPUT (Some (js ''abc''))] (initial_state chain_edges ()) = Continue ?st"
    by code_simp
  have h3: "node_id ?b \<notin> set (allInactiveNodes (chain_nodes ?b) chain_edges)"
    by code_simp
  have h4: "node_type ?b = CLI" by (simp add: mk_node_def)
  have h5: "fst ?run = Inl (js ''Cody cannot execute this command'')" by code_simp
  have id: "node_id ?b = js ''b''" by (simp add: mk_node_def)
  have h5': "executeCLINode ?env (cli_request ?b (ctx ?st))
                (emit (NodeExecutionStatus (node_id ?b) Running None) ?st)
      = (Inl (js ''Cody cannot execute this command''), snd ?run)"
    unfolding id using h5 by (cases ?run) simp
  have t1: "trace (snd ?run) =
      [ExecutionStarted,
       NodeExecutionStatus (js ''a'') Running None,
       NodeExecutionStatus (js ''a'') Completed (Some (js ''abc'')),
       NodeExecutionStatus (js ''b'') Running None,
       ShowErrorMessage (js ''Cody cannot execute this command'')]"
    by code_simp
  have inc: "\<not> js_includes (js ''Cody cannot execute this command'') (js ''aborted'')"
    by code_simp
  from cli_failure_ends_run[OF h1 h2 h3 h4 h5'] obtain st2 where
    "executeWorkflow ?env (chain_nodes ?b) chain_edges () = Resolved st2"
    and "trace st2 = trace (snd ?run) @
          [ShellDispose,
           ShowErrorMessage (js ''CLI Node Error: '' @ js ''Cody cannot execute this command''),
           NodeExecutionStatus (node_id ?b)
             (if js_includes (js ''Cody cannot execute this command'') (js ''aborted'')
              then Interrupted else Failed) (Some (js ''Cody cannot execute this command'')),
           ExecutionCompleted]"
    by blast
  then have "trace (final_state (executeWorkflow ?env (chain_nodes ?b) chain_edges ())) =
      [ExecutionStarted,
        NodeExecutionStatus (js ''a'') Running None,
        NodeExecutionStatus (js ''a'') Completed (Some (js ''abc'')),
        NodeExecutionStatus (js ''b'') Running None,
        ShowErrorMessage (js ''Cody cannot execute this command''),
        ShellDispose,
        ShowErrorMessage (js ''CLI Node Error: Cody cannot execute this command''),
        NodeExecutionStatus (js ''b'') Failed (Some (js ''Cody cannot execute this command'')),
        ExecutionCompleted]"
    by (simp add: final_state_def t1[simplified] inc[simplified] id[simplified])
  with h1 h2 h3 h4 h5 show ?thesis by blast
qed

theorem unknown_node_type_rejects_witness:
  "topologicalSort (chain_nodes (mk_node (js ''b'') (OTHER (js ''mystery'')) None)) chain_edges
     = [mk_node (js ''a'') INPUT (Some (js ''abc''))] @ mk_node (js ''b'') (OTHER (js ''mystery'')) None
       # [mk_node (js ''c'') PREVIEW None]
   \<and> execute_nodes (example_env None (Inr (js ''out'')) (completes (js ''hi'')))
        (allInactiveNodes (chain_nodes (mk_node (js ''b'') (OTHER (js ''mystery'')) None)) chain_edges)
        [mk_node (js ''a'') INPUT (Some (js ''abc''))] (initial_state chain_edges ())
     = Continue (chain_reached (example_env None (Inr (js ''out'')) (completes (js ''hi''))))
   \<and> node_id (mk_node (js ''b'') (OTHER (js ''mystery'')) None)
       \<notin> set (allInactiveNodes (chain_nodes (mk_node (js ''b'') (OTHER (js ''mystery'')) None)) chain_edges)
   \<and> node_type (mk_node (js ''b'') (OTHER (js ''mystery'')) None) = OTHER (js ''mystery'')
   \<and> distinct (map node_id (chain_nodes (mk_node (js ''b'') (OTHER (js ''mystery'')) None)))
   \<and> rejection (executeWorkflow (example_env None (Inr (js ''out'')) (completes (js ''hi'')))
        (chain_nodes (mk_node (js ''b'') (OTHER (js ''mystery'')) None)) chain_edges ())
     = Some (js ''Unknown node type: mystery'')
   \<and> trace (final_state (executeWorkflow (example_env None (Inr (js ''out'')) (completes (js ''hi'')))
        (chain_nodes (mk_node (js ''b'') (OTHER (js ''mystery'')) None)) chain_edges ()))
     = [ExecutionStarted,
        NodeExecutionStatus (js ''a'') Running None,
        NodeExecutionStatus (js ''a'') Completed (Some (js ''abc'')),
        NodeExecutionStatus (js ''b'') Running None,
        ShellDispose]"
proof -
  let ?env = "example_env None (Inr (js ''out'')) (completes (js ''hi''))"
  let ?b = "mk_node (js ''b'') (OTHER (js ''mystery'')) None"
  let ?st = "chain_reached ?env"
  have h1: "topologicalSort (chain_nodes ?b) chain_edges
      = [mk_node (js ''a'') INPUT (Some (js ''abc''))] @ ?b # [mk_node (js ''c'') PREVIEW None]"
    by code_simp
  have h2: "execute_nodes ?env (allInactiveNodes (chain_nodes ?b) chain_edges)
      [mk_node (js ''a'') INPUT (Some (js ''abc''))] (initial_state chain_edges ()) = Continue ?st"
    by code_simp
  have h3: "node_id ?b \<notin> set (allInactiveNodes (chain_nodes ?b) chain_edges)"
    by code_simp
  have h4: "node_type ?b = OTHER (js ''mystery'')" by (simp add: mk_node_def)
  have h5: "distinct (map node_id (chain_nodes ?b))" by (simp add: chain_nodes_def mk_node_def)
  have id: "node_id ?b = js ''b''" by (simp add: mk_node_def)
  have t: "trace ?st = [ExecutionStarted,
        NodeExecutionStatus (js ''a'') Running None,
        NodeExecutionStatus (js ''a'') Completed (Some (js ''abc''))]"
    by code_simp
  note th = unknown_node_type_rejects[OF h1 h2 h3 h4]
  from th have "executeWorkflow ?env (chain_nodes ?b) chain_edges () =
      Rejected (js ''Unknown node type: '' @ js ''mystery'')
        (emit ShellDispose (emit (NodeExecutionStatus (node_id ?b) Running None) ?st))"
    by blast
  then have "rejection (executeWorkflow ?env (chain_nodes ?b) chain_edges ())
      = Some (js ''Unknown node type: mystery'')"
    by (simp add: rejection_def)
  moreover from th have "trace (final_state (executeWorkflow ?env (chain_nodes ?b) chain_edges ()))
     = trace ?st @ [NodeExecutionStatus (node_id ?b) Running None, ShellDispose]"
    by blast
  then have "trace (final_state (executeWorkflow ?env (chain_nodes ?b) chain_edges ()))
     = [ExecutionStarted,
        NodeExecutionStatus (js ''a'') Running None,
        NodeExecutionStatus (js ''a'') Completed (Some (js ''abc'')),
        NodeExecutionStatus (js ''b'') Running None,
        ShellDispose]"
    by (simp only: t id append.simps)
  ultimately show ?thesis using h1 h2 h3 h4 h5 by blast
qed

section \<open>Failure of an LLM node\<close>

lemma executeLLMNode_rejected:
  assumes "content (data n) = Some p" and "p \<noteq> []"
    and "chat env n (world st) = (r, w')"
    and "race r = Inl e"
  shows "executeLLMNode env n st =
           (Inl (llm_error_message e), (emit (ChatRequest (node_id n) p) st)\<lparr> world := w' \<rparr>)"
  using assms by (simp add: executeLLMNode_def Let_def)

text \<open>
  C5, as amended. When the run reaches an LLM node with a non-empty prompt and the race
  of its stream against the timer ends in an error that is not an abort (an error
  message of the stream, an exception of the stream, the size limit or the timeout),
  \<open>executeWorkflow\<close> rejects with \<open>Failed to execute LLM node\<close> and the message of the
  error. After the events of the nodes before it the trace holds the \<open>running\<close> status of
  the node and the chat request and nothing else: no later node is executed, no status
  other than \<open>running\<close> is reported for the node, no \<open>execution_completed\<close> is emitted
  and the shell is not disposed.
\<close>

theorem llm_failure_rejects_run:
  assumes sorted: "topologicalSort nodes edges = pre @ node # rest"
    and reached: "execute_nodes env (allInactiveNodes nodes edges) pre (initial_state edges w)
                    = Continue st"
    and not_skipped: "node_id node \<notin> set (allInactiveNodes nodes edges)"
    and llm: "node_type node = LLM"
    and prompt: "content (data (llm_request node (ctx st))) = Some p" "p \<noteq> []"
    and chat: "chat env (llm_request node (ctx st)) (world st) = (r, w')"
    and fails: "race r = Inl (JsError name message)" "name \<noteq> (js ''AbortError'')"
  shows "rejection (executeWorkflow env nodes edges w)
           = Some (js ''Failed to execute LLM node: '' @ message)
     \<and> trace (final_state (executeWorkflow env nodes edges w)) =
           trace st @ [NodeExecutionStatus (node_id node) Running None,
                       ChatRequest (node_id node) p]
     \<and> ExecutionCompleted \<notin> set (trace (final_state (executeWorkflow env nodes edges w)))
     \<and> list_all (allowed (allInactiveNodes nodes edges) (pre @ [node]))
          (trace (final_state (executeWorkflow env nodes edges w)))"
proof -
  let ?skip = "allInactiveNodes nodes edges"
  let ?st0 = "emit (NodeExecutionStatus (node_id node) Running None) st"
  let ?st1 = "(emit (ChatRequest (node_id node) p) ?st0)\<lparr> world := w' \<rparr>"
  let ?err = "js ''Failed to execute LLM node: '' @ message"
  have "executeLLMNode env (llm_request node (ctx st)) ?st0 =
      (Inl (llm_error_message (JsError name message)), ?st1)"
    using executeLLMNode_rejected[of "llm_request node (ctx st)" p env ?st0 r w'
            "JsError name message"] prompt chat fails(1)
    by simp
  then have ex: "executeLLMNode env (llm_request node (ctx st)) ?st0 = (Inl ?err, ?st1)"
    using fails(2) by (simp add: llm_error_message_def)
  have rn: "run_node env node st = Throw ?err ?st1"
    using ex by (simp add: run_node_LLM[OF llm])
  have "execute_nodes env ?skip (pre @ node # rest) (initial_state edges w) = Throw ?err ?st1"
    using reached not_skipped rn by (simp add: execute_nodes_append)
  then have res: "executeWorkflow env nodes edges w = Rejected ?err ?st1"
    by (simp add: executeWorkflow_def sorted)
  have tr: "trace ?st1 = trace st @ [NodeExecutionStatus (node_id node) Running None,
                       ChatRequest (node_id node) p]"
    by simp
  have pre_q: "list_all (loop_quiet ?skip pre) (trace st)" using reached by (rule reached_trace)
  have nc: "ExecutionCompleted \<notin> set (trace ?st1)"
    using pre_q by (auto simp: list_all_iff loop_quiet_def)
  have al: "list_all (allowed ?skip (pre @ [node])) (trace ?st1)"
    unfolding tr using loop_quiet_allowed[OF pre_q, of "[node]"] not_skipped
    by (simp add: allowed_def event_node_def)
  show ?thesis
    unfolding res using tr nc al by (simp add: rejection_def final_state_def)
qed

theorem llm_failure_rejects_run_witness:
  "topologicalSort (chain_nodes (mk_node (js ''b'') LLM (Some (js ''Summarise ${1}'')))) chain_edges
     = [mk_node (js ''a'') INPUT (Some (js ''abc''))] @ mk_node (js ''b'') LLM (Some (js ''Summarise ${1}''))
       # [mk_node (js ''c'') PREVIEW None]
   \<and> execute_nodes (example_env None (Inr (js ''out'')) (stream_fails (js ''boom'')))
        (allInactiveNodes (chain_nodes (mk_node (js ''b'') LLM (Some (js ''Summarise ${1}'')))) chain_edges)
        [mk_node (js ''a'') INPUT (Some (js ''abc''))] (initial_state chain_edges ())
     = Continue (chain_reached (example_env None (Inr (js ''out'')) (stream_fails (js ''boom''))))
   \<and> node_id (mk_node (js ''b'') LLM (Some (js ''Summarise ${1}'')))
       \<notin> set (allInactiveNodes (chain_nodes (mk_node (js ''b'') LLM (Some (js ''Summarise ${1}'')))) chain_edges)
   \<and> node_type (mk_node (js ''b'') LLM (Some (js ''Summarise ${1}''))) = LLM
   \<and> content (data (llm_request (mk_node (js ''b'') LLM (Some (js ''Summarise ${1}'')))
        (ctx (chain_reached (example_env None (Inr (js ''out'')) (stream_fails (js ''boom'')))))))
     = Some (js ''Summarise abc'')
   \<and> js ''Summarise abc'' \<noteq> []
   \<and> race (stream_fails (js ''boom'')) = Inl (JsError (js ''Error'') (js ''boom''))
   \<and> js ''Error'' \<noteq> (js ''AbortError'')
   \<and> rejection (executeWorkflow (example_env None (Inr (js ''out'')) (stream_fails (js ''boom'')))
        (chain_nodes (mk_node (js ''b'') LLM (Some (js ''Summarise ${1}'')))) chain_edges ())
     = Some (js ''Failed to execute LLM node: boom'')
   \<and> trace (final_state (executeWorkflow (example_env None (Inr (js ''out'')) (stream_fails (js ''boom'')))
        (chain_nodes (mk_node (js ''b'') LLM (Some (js ''Summarise ${1}'')))) chain_edges ()))
     = [ExecutionStarted,
        NodeExecutionStatus (js ''a'') Running None,
        NodeExecutionStatus (js ''a'') Completed (Some (js ''abc'')),
        NodeExecutionStatus (js ''b'') Running None,
        ChatRequest (js ''b'') (js ''Summarise abc'')]"
proof -
  let ?env = "example_env None (Inr (js ''out'')) (stream_fails (js ''boom''))"
  let ?b = "mk_node (js ''b'') LLM (Some (js ''Summarise ${1}''))"
  let ?st = "chain_reached ?env"
  have h1: "topologicalSort (chain_nodes ?b) chain_edges
      = [mk_node (js ''a'') INPUT (Some (js ''abc''))] @ ?b # [mk_node (js ''c'') PREVIEW None]"
    by code_simp
  have h2: "execute_nodes ?env (allInactiveNodes (chain_nodes ?b) chain_edges)
      [mk_node (js ''a'') INPUT (Some (js ''abc''))] (initial_state chain_edges ()) = Continue ?st"
    by code_simp
  have h3: "node_id ?b \<notin> set (allInactiveNodes (chain_nodes ?b) chain_edges)"
    by code_simp
  have h4: "node_type ?b = LLM" by (simp add: mk_node_def)
  have h5: "content (data (llm_request ?b (ctx ?st))) = Some (js ''Summarise abc'')"
    by code_simp
  have h6: "js ''Summarise abc'' \<noteq> []" by simp
  have h7: "chat ?env (llm_request ?b (ctx ?st)) (world ?st) = (stream_fails (js ''boom''), ())"
    by (simp add: example_env_def)
  have h8: "race (stream_fails (js ''boom'')) = Inl (JsError (js ''Error'') (js ''boom''))"
    by (simp add: race_def stream_fails_def)
  have h9: "js ''Error'' \<noteq> (js ''AbortError'')" by simp
  have id: "node_id ?b = js ''b''" by (simp add: mk_node_def)
  have t: "trace ?st = [ExecutionStarted,
        NodeExecutionStatus (js ''a'') Running None,
        NodeExecutionStatus (js ''a'') Completed (Some (js ''abc''))]"
    by code_simp
  note th = llm_failure_rejects_run[OF h1 h2 h3 h4 h5 h6 h7 h8 h9]
  from th have "rejection (executeWorkflow ?env (chain_nodes ?b) chain_edges ())
      = Some (js ''Failed to execute LLM node: '' @ js ''boom'')"
    by blast
  then have "rejection (executeWorkflow ?env (chain_nodes ?b) chain_edges ())
      = Some (js ''Failed to execute LLM node: boom'')"
    by simp
  moreover from th have "trace (final_state (executeWorkflow ?env (chain_nodes ?b) chain_edges ()))
     = trace ?st @ [NodeExecutionStatus (node_id ?b) Running None,
                    ChatRequest (node_id ?b) (js ''Summarise abc'')]"
    by blast
  then have "trace (final_state (executeWorkflow ?env (chain_nodes ?b) chain_edges ()))
     = [ExecutionStarted,
        NodeExecutionStatus (js ''a'') Running None,
        NodeExecutionStatus (js ''a'') Completed (Some (js ''abc'')),
        NodeExecutionStatus (js ''b'') Running None,
        ChatRequest (js ''b'') (js ''Summarise abc'')]"
    by (simp only: t id append.simps)
  ultimately show ?thesis using h1 h2 h3 h4 h5 h6 h8 h9 by blast
qed

text \<open>
  The claim as stated fails on the chain \<open>a \<rightarrow> b \<rightarrow> c\<close> whose LLM node \<open>b\<close> receives an
  error message from its stream: \<open>c\<close> stands after \<open>b\<close> in the sorted list and is not
  executed, the run is rejected.
\<close>

theorem llm_failure_continues_counterexample:
  "map node_id (topologicalSort (chain_nodes (mk_node (js ''b'') LLM (Some (js ''Summarise ${1}''))))
       chain_edges) = [js ''a'', js ''b'', js ''c'']
   \<and> rejection (executeWorkflow (example_env None (Inr (js ''out'')) (stream_fails (js ''boom'')))
        (chain_nodes (mk_node (js ''b'') LLM (Some (js ''Summarise ${1}'')))) chain_edges ())
     = Some (js ''Failed to execute LLM node: boom'')
   \<and> trace (final_state (executeWorkflow (example_env None (Inr (js ''out'')) (stream_fails (js ''boom'')))
        (chain_nodes (mk_node (js ''b'') LLM (Some (js ''Summarise ${1}'')))) chain_edges ()))
     = [ExecutionStarted,
        NodeExecutionStatus (js ''a'') Running None,
        NodeExecutionStatus (js ''a'') Completed (Some (js ''abc'')),
        NodeExecutionStatus (js ''b'') Running None,
        ChatRequest (js ''b'') (js ''Summarise abc'')]"
  by code_simp

section \<open>The skip set\<close>

lemma set_reach_step:
  "set (reach_step edges found) = set found \<union> edge_rel edges `` set found"
  by (auto simp: reach_step_def edge_rel_def Image_def intro: rev_image_eqI)

lemma set_funpow_reach_step:
  "set ((reach_step edges ^^ n) found) =
     ((\<lambda>S. S \<union> edge_rel edges `` S) ^^ n) (set found)"
  by (induction n) (simp_all add: set_reach_step)

lemma reach_sound:
  "((\<lambda>S. S \<union> R `` S) ^^ n) {s} \<subseteq> R\<^sup>* `` {s}"
proof (induction n)
  case 0
  show ?case by auto
next
  case (Suc n)
  then show ?case by (auto intro: rtrancl_into_rtrancl)
qed

lemma reach_start: "s \<in> ((\<lambda>S. S \<union> R `` S) ^^ n) {s}"
  by (induction n) auto

lemma reach_bound:
  "((\<lambda>S. S \<union> edge_rel edges `` S) ^^ n) {s} \<subseteq> insert s (target ` set edges)"
proof (induction n)
  case 0
  show ?case by simp
next
  case (Suc n)
  then show ?case by (auto simp: edge_rel_def)
qed

lemma closed_rtrancl:
  assumes "s \<in> S" and "R `` S \<subseteq> S"
  shows "R\<^sup>* `` {s} \<subseteq> S"
proof
  fix v assume "v \<in> R\<^sup>* `` {s}"
  then have "(s, v) \<in> R\<^sup>*" by simp
  then show "v \<in> S"
    using assms by (induction rule: rtrancl_induct) auto
qed

lemma reach_growth:
  fixes edges :: "Edge list"
  defines "F \<equiv> \<lambda>S. S \<union> edge_rel edges `` S"
  shows "edge_rel edges `` ((F ^^ n) {s}) \<subseteq> (F ^^ n) {s} \<or> n + 1 \<le> card ((F ^^ n) {s})"
proof (induction n)
  case 0
  show ?case by simp
next
  case (Suc n)
  let ?S = "(F ^^ n) {s}"
  have fin: "finite (F ?S)"
  proof (rule finite_subset)
    show "F ?S \<subseteq> insert s (target ` set edges)"
      using reach_bound[where edges=edges and n="Suc n" and s=s] by (simp add: F_def)
  qed simp
  show ?case
  proof (cases "edge_rel edges `` ?S \<subseteq> ?S")
    case True
    then have "F ?S = ?S" by (auto simp: F_def)
    with True show ?thesis by simp
  next
    case False
    with Suc have c: "n + 1 \<le> card ?S" by blast
    from False have "?S \<subset> F ?S" by (auto simp: F_def)
    with fin have "card ?S < card (F ?S)" by (rule psubset_card_mono)
    with c show ?thesis by simp
  qed
qed

lemma reach_closed:
  "edge_rel edges `` (((\<lambda>S. S \<union> edge_rel edges `` S) ^^ length edges) {s})
     \<subseteq> ((\<lambda>S. S \<union> edge_rel edges `` S) ^^ length edges) {s}"
proof -
  let ?F = "\<lambda>S. S \<union> edge_rel edges `` S"
  let ?S = "(?F ^^ length edges) {s}"
  let ?B = "insert s (target ` set edges)"
  from reach_growth[where edges=edges and n="length edges" and s=s]
  consider "edge_rel edges `` ?S \<subseteq> ?S" | "length edges + 1 \<le> card ?S" by blast
  then show ?thesis
  proof cases
    case 1
    then show ?thesis .
  next
    case 2
    have sub: "?S \<subseteq> ?B" by (rule reach_bound)
    have "card ?B \<le> 1 + card (target ` set edges)" by (simp add: card_insert_if)
    also have "\<dots> \<le> 1 + card (set edges)" by (simp add: card_image_le)
    also have "\<dots> \<le> 1 + length edges" by (simp add: card_length)
    finally have "card ?B \<le> card ?S" using 2 by simp
    with sub have "?S = ?B" by (intro card_seteq) simp_all
    moreover have "edge_rel edges `` ?B \<subseteq> ?B" by (auto simp: edge_rel_def)
    ultimately show ?thesis by simp
  qed
qed

lemma set_getInactiveNodes:
  "set (getInactiveNodes edges s) = (edge_rel edges)\<^sup>* `` {s}"
proof
  show "set (getInactiveNodes edges s) \<subseteq> (edge_rel edges)\<^sup>* `` {s}"
    unfolding getInactiveNodes_def set_funpow_reach_step
    using reach_sound[where R="edge_rel edges" and n="length edges" and s=s] by simp
  show "(edge_rel edges)\<^sup>* `` {s} \<subseteq> set (getInactiveNodes edges s)"
    unfolding getInactiveNodes_def set_funpow_reach_step
  proof -
    have "(edge_rel edges)\<^sup>* `` {s}
        \<subseteq> ((\<lambda>S. S \<union> edge_rel edges `` S) ^^ length edges) {s}"
      by (rule closed_rtrancl) (rule reach_start, rule reach_closed)
    then show "(edge_rel edges)\<^sup>* `` {s}
        \<subseteq> ((\<lambda>S. S \<union> edge_rel edges `` S) ^^ length edges) (set [s])"
      by simp
  qed
qed

lemma set_allInactiveNodes:
  "set (allInactiveNodes nodes edges) =
     {v. \<exists>x\<in>set nodes. active (data x) = Some False \<and> (node_id x, v) \<in> (edge_rel edges)\<^sup>*}"
  by (auto simp: allInactiveNodes_def set_getInactiveNodes)

lemma executeWorkflow_allowed:
  "list_all (allowed (allInactiveNodes nodes edges) (topologicalSort nodes edges))
     (trace (final_state (executeWorkflow env nodes edges w)))"
proof -
  let ?skip = "allInactiveNodes nodes edges"
  let ?ns = "topologicalSort nodes edges"
  let ?r = "execute_nodes env ?skip ?ns (initial_state edges w)"
  have "emits (allowed ?skip ?ns) (initial_state edges w) (step_state ?r)"
    by (rule execute_nodes_allowed[OF refl])
  then have a: "list_all (allowed ?skip ?ns) (trace (step_state ?r))"
    by (rule emits_list_all) (simp add: allowed_def event_node_def)
  show ?thesis
  proof (cases ?r)
    case (Continue st)
    with a show ?thesis
      by (simp add: executeWorkflow_def final_state_def step_state_def allowed_def event_node_def)
  next
    case (Return st)
    with a show ?thesis
      by (simp add: executeWorkflow_def final_state_def step_state_def)
  next
    case (Throw err st)
    with a show ?thesis
      by (simp add: executeWorkflow_def final_state_def step_state_def)
  qed
qed

text \<open>A node marked inactive, and a node that needs the user's approval.\<close>

definition inactive :: "WorkflowNode \<Rightarrow> WorkflowNode" where
  "inactive n = n\<lparr> data := (data n)\<lparr> active := Some False \<rparr> \<rparr>"

definition needing_approval :: "WorkflowNode \<Rightarrow> WorkflowNode" where
  "needing_approval n = n\<lparr> data := (data n)\<lparr> needsUserApproval := True \<rparr> \<rparr>"

text \<open>
  C9. The skip set of a run is the union, over the nodes with \<open>active = false\<close>, of the
  nodes reachable from them along the edges. No event of the run (status message, token
  count or call of a collaborator) names a node of the skip set. In particular, when \<open>x\<close>
  is inactive, an edge leads from \<open>x\<close> to \<open>y\<close> and an edge leads from \<open>y\<close> to \<open>z\<close>, no
  event names \<open>y\<close> or \<open>z\<close>.
\<close>

theorem skipped_nodes_emit_nothing:
  "set (allInactiveNodes nodes edges) =
     {v. \<exists>x. x \<in> set nodes \<and> active (data x) = Some False
              \<and> (node_id x, v) \<in> (edge_rel edges)\<^sup>*}
   \<and> list_all (\<lambda>e. \<not> (\<exists>v. v \<in> set (allInactiveNodes nodes edges) \<and> event_node e = Some v))
        (trace (final_state (executeWorkflow env nodes edges w)))
   \<and> (x \<in> set nodes \<and> active (data x) = Some False
        \<and> xy \<in> set edges \<and> source xy = node_id x
        \<and> yz \<in> set edges \<and> source yz = target xy \<longrightarrow>
      list_all (\<lambda>e. event_node e \<noteq> Some (target xy) \<and> event_node e \<noteq> Some (target yz))
        (trace (final_state (executeWorkflow env nodes edges w))))"
proof (intro conjI impI)
  let ?skip = "allInactiveNodes nodes edges"
  let ?tr = "trace (final_state (executeWorkflow env nodes edges w))"
  show s: "set ?skip = {v. \<exists>x. x \<in> set nodes \<and> active (data x) = Some False
              \<and> (node_id x, v) \<in> (edge_rel edges)\<^sup>*}"
    using set_allInactiveNodes[of nodes edges] by blast
  have al: "list_all (allowed ?skip (topologicalSort nodes edges)) ?tr"
    by (rule executeWorkflow_allowed)
  then show q: "list_all (\<lambda>e. \<not> (\<exists>v. v \<in> set ?skip \<and> event_node e = Some v)) ?tr"
    by (auto simp: list_all_iff allowed_def split: option.splits)
  assume a: "x \<in> set nodes \<and> active (data x) = Some False
        \<and> xy \<in> set edges \<and> source xy = node_id x
        \<and> yz \<in> set edges \<and> source yz = target xy"
  then have "(node_id x, target xy) \<in> edge_rel edges" "(target xy, target yz) \<in> edge_rel edges"
    by (auto simp: edge_rel_def intro: rev_image_eqI)
  then have "(node_id x, target xy) \<in> (edge_rel edges)\<^sup>*"
    "(node_id x, target yz) \<in> (edge_rel edges)\<^sup>*"
    by auto
  with a have "target xy \<in> set ?skip" "target yz \<in> set ?skip"
    unfolding s by blast+
  with q show "list_all (\<lambda>e. event_node e \<noteq> Some (target xy) \<and> event_node e \<noteq> Some (target yz)) ?tr"
    by (auto simp: list_all_iff)
qed

theorem skipped_nodes_emit_nothing_witness:
  "inactive (mk_node (js ''x'') INPUT (Some (js ''seed'')))
     \<in> set [inactive (mk_node (js ''x'') INPUT (Some (js ''seed''))), mk_node (js ''y'') CLI (Some (js ''echo ${1}'')),
             mk_node (js ''z'') PREVIEW None, mk_node (js ''w'') INPUT (Some (js ''free''))]
   \<and> active (data (inactive (mk_node (js ''x'') INPUT (Some (js ''seed''))))) = Some False
   \<and> mk_edge (js ''x'') (js ''y'') \<in> set [mk_edge (js ''x'') (js ''y''), mk_edge (js ''y'') (js ''z'')]
   \<and> source (mk_edge (js ''x'') (js ''y'')) = node_id (inactive (mk_node (js ''x'') INPUT (Some (js ''seed''))))
   \<and> mk_edge (js ''y'') (js ''z'') \<in> set [mk_edge (js ''x'') (js ''y''), mk_edge (js ''y'') (js ''z'')]
   \<and> source (mk_edge (js ''y'') (js ''z'')) = target (mk_edge (js ''x'') (js ''y''))
   \<and> list_all (\<lambda>e. event_node e \<noteq> Some (js ''y'') \<and> event_node e \<noteq> Some (js ''z''))
        (trace (final_state (executeWorkflow (example_env None (Inr (js ''out'')) (completes (js ''hi'')))
           [inactive (mk_node (js ''x'') INPUT (Some (js ''seed''))), mk_node (js ''y'') CLI (Some (js ''echo ${1}'')),
            mk_node (js ''z'') PREVIEW None, mk_node (js ''w'') INPUT (Some (js ''free''))]
           [mk_edge (js ''x'') (js ''y''), mk_edge (js ''y'') (js ''z'')] ())))
   \<and> trace (final_state (executeWorkflow (example_env None (Inr (js ''out'')) (completes (js ''hi'')))
           [inactive (mk_node (js ''x'') INPUT (Some (js ''seed''))), mk_node (js ''y'') CLI (Some (js ''echo ${1}'')),
            mk_node (js ''z'') PREVIEW None, mk_node (js ''w'') INPUT (Some (js ''free''))]
           [mk_edge (js ''x'') (js ''y''), mk_edge (js ''y'') (js ''z'')] ()))
     = [ExecutionStarted,
        NodeExecutionStatus (js ''w'') Running None,
        NodeExecutionStatus (js ''w'') Completed (Some (js ''free'')),
        ShellDispose,
        ExecutionCompleted]"
proof -
  let ?x = "inactive (mk_node (js ''x'') INPUT (Some (js ''seed'')))"
  let ?ns = "[?x, mk_node (js ''y'') CLI (Some (js ''echo ${1}'')),
             mk_node (js ''z'') PREVIEW None, mk_node (js ''w'') INPUT (Some (js ''free''))]"
  let ?es = "[mk_edge (js ''x'') (js ''y''), mk_edge (js ''y'') (js ''z'')]"
  let ?env = "example_env None (Inr (js ''out'')) (completes (js ''hi''))"
  have h: "?x \<in> set ?ns \<and> active (data ?x) = Some False
      \<and> mk_edge (js ''x'') (js ''y'') \<in> set ?es \<and> source (mk_edge (js ''x'') (js ''y'')) = node_id ?x
      \<and> mk_edge (js ''y'') (js ''z'') \<in> set ?es \<and> source (mk_edge (js ''y'') (js ''z'')) = target (mk_edge (js ''x'') (js ''y''))"
    by (simp add: inactive_def mk_node_def mk_edge_def)
  have t: "target (mk_edge (js ''x'') (js ''y'')) = js ''y''" "target (mk_edge (js ''y'') (js ''z'')) = js ''z''"
    by (simp_all add: mk_edge_def)
  from skipped_nodes_emit_nothing[of ?ns ?es ?env "()" ?x "mk_edge (js ''x'') (js ''y'')" "mk_edge (js ''y'') (js ''z'')"] h
  have "list_all (\<lambda>e. event_node e \<noteq> Some (target (mk_edge (js ''x'') (js ''y'')))
                     \<and> event_node e \<noteq> Some (target (mk_edge (js ''y'') (js ''z''))))
        (trace (final_state (executeWorkflow ?env ?ns ?es ())))"
    by blast
  then have c: "list_all (\<lambda>e. event_node e \<noteq> Some (js ''y'') \<and> event_node e \<noteq> Some (js ''z''))
        (trace (final_state (executeWorkflow ?env ?ns ?es ())))"
    unfolding t .
  have e: "trace (final_state (executeWorkflow ?env ?ns ?es ()))
     = [ExecutionStarted,
        NodeExecutionStatus (js ''w'') Running None,
        NodeExecutionStatus (js ''w'') Completed (Some (js ''free'')),
        ShellDispose,
        ExecutionCompleted]"
    by code_simp
  from h c e show ?thesis by blast
qed

section \<open>Parent outputs in connection order\<close>

text \<open>The replacement of \<open>\r\n\<close> and the trimming, each by what it does to a string.\<close>

lemma normalize_newlines_crlf:
  "normalize_newlines (pre @ 0x0D # 0x0A # post)
     = normalize_newlines pre @ 0x0A # normalize_newlines post"
  by (induction pre rule: normalize_newlines.induct) simp_all

lemma normalize_newlines_unchanged:
  "\<not> (\<exists>p q. s = p @ 0x0D # 0x0A # q) \<Longrightarrow> normalize_newlines s = s"
proof (induction s rule: normalize_newlines.induct)
  case (1 c1 c2 r)
  from "1.prems" have n: "\<not> (c1 = 0x0D \<and> c2 = 0x0A)" by (auto simp: append_eq_Cons_conv)
  have "\<not> (\<exists>p q. c2 # r = p @ 0x0D # 0x0A # q)"
  proof
    assume "\<exists>p q. c2 # r = p @ 0x0D # 0x0A # q"
    then obtain p q where "c2 # r = p @ 0x0D # 0x0A # q" by blast
    then have "c1 # c2 # r = (c1 # p) @ 0x0D # 0x0A # q" by simp
    with "1.prems" show False by blast
  qed
  with "1.IH"(2) n have "normalize_newlines (c2 # r) = c2 # r" by blast
  with n show ?case by auto
qed simp_all

lemma js_trim_decomp:
  "\<exists>l r. s = l @ js_trim s @ r \<and> list_all js_whitespace l \<and> list_all js_whitespace r"
proof (intro exI conjI)
  let ?m = "dropWhile js_whitespace s"
  let ?l = "takeWhile js_whitespace s"
  let ?r = "rev (takeWhile js_whitespace (rev ?m))"
  have "js_trim s @ ?r
      = rev (takeWhile js_whitespace (rev ?m) @ dropWhile js_whitespace (rev ?m))"
    by (simp only: js_trim_def rev_append)
  also have "\<dots> = ?m" by (simp only: takeWhile_dropWhile_id rev_rev_ident)
  finally have m: "?m = js_trim s @ ?r" by (rule sym)
  have "s = ?l @ ?m" by simp
  with m show "s = ?l @ js_trim s @ ?r" by simp
  show "list_all js_whitespace ?l" by (auto simp: list_all_iff dest: set_takeWhileD)
  show "list_all js_whitespace ?r" by (auto simp: list_all_iff dest: set_takeWhileD)
qed

lemma js_trim_ends:
  assumes "js_trim s \<noteq> []"
  shows "\<not> js_whitespace (hd (js_trim s))" and "\<not> js_whitespace (last (js_trim s))"
proof -
  let ?m = "dropWhile js_whitespace s"
  let ?d = "dropWhile js_whitespace (rev ?m)"
  from assms have d: "?d \<noteq> []" by (simp add: js_trim_def)
  then have "\<not> js_whitespace (hd ?d)" by (rule hd_dropWhile)
  with d show "\<not> js_whitespace (last (js_trim s))" by (simp add: js_trim_def last_rev)
  have m: "?m \<noteq> []"
  proof
    assume e: "?m = []"
    have "?d = []" unfolding e by simp
    with d show False by simp
  qed
  then have nm: "\<not> js_whitespace (hd ?m)" by (rule hd_dropWhile)
  have "js_trim s @ rev (takeWhile js_whitespace (rev ?m))
      = rev (takeWhile js_whitespace (rev ?m) @ ?d)"
    by (simp only: js_trim_def rev_append)
  also have "\<dots> = ?m" by (simp only: takeWhile_dropWhile_id rev_rev_ident)
  finally have "hd ?m = hd (js_trim s @ rev (takeWhile js_whitespace (rev ?m)))" by simp
  with assms have "hd ?m = hd (js_trim s)" by simp
  with nm show "\<not> js_whitespace (hd (js_trim s))" by simp
qed

text \<open>
  C7. \<open>combineParentOutputsByConnectionOrder\<close> returns one entry for each edge of the edge
  list that leads to the node, in the order of the edge list: the output recorded for
  the source of the edge with \<open>\r\n\<close> replaced by \<open>\n\<close> and then trimmed, or the empty
  string when no output is recorded. It is a total function with no error result.
  The replacement turns every \<open>\r\n\<close> found from left to right into \<open>\n\<close> and leaves a
  string without \<open>\r\n\<close> as it is. The trimmed string is what remains of a string when a
  run of white space is taken from its left and from its right, and it neither starts
  nor ends with white space. For the edges \<open>a \<rightarrow> n\<close>, \<open>b \<rightarrow> n\<close> and the outputs \<open>X\r\n\<close>
  of \<open>a\<close> and \<open>Y\<close> of \<open>b\<close> the result is \<open>[X, Y]\<close>, whichever output was recorded
  first. The last example has an edge out of the node, a parent with no output, a
  parent connected twice, \<open>\r\n\<close> inside an output and white space outside Latin-1.
  The trimming removes each of the twenty-five white space code units, and none of
  U+0085, U+180E, U+200B and U+2060, which are no white space.
\<close>

theorem combineParentOutputs_in_edge_order:
  "combineParentOutputsByConnectionOrder nodeId
       \<lparr> nodeOutputs = outputs, edgeIndex = createEdgeIndex edges \<rparr>
     = map (\<lambda>edge. case map_of outputs (source edge) of
                      None \<Rightarrow> []
                    | Some output \<Rightarrow> js_trim (normalize_newlines output))
         (filter (\<lambda>edge. target edge = nodeId) edges)
   \<and> normalize_newlines (pre @ [0x0D, 0x0A] @ post)
     = normalize_newlines pre @ [0x0A] @ normalize_newlines post
   \<and> (\<not> (\<exists>p q. s = p @ [0x0D, 0x0A] @ q) \<longrightarrow> normalize_newlines s = s)
   \<and> (\<exists>l r. s = l @ js_trim s @ r \<and> list_all js_whitespace l \<and> list_all js_whitespace r)
   \<and> (js_trim s = []
      \<or> \<not> js_whitespace (hd (js_trim s)) \<and> \<not> js_whitespace (last (js_trim s)))
   \<and> combineParentOutputsByConnectionOrder (js ''n'')
       \<lparr> nodeOutputs = [(js ''a'', js ''X'' @ [0x0D, 0x0A]), (js ''b'', js ''Y'')],
         edgeIndex = createEdgeIndex [mk_edge (js ''a'') (js ''n''), mk_edge (js ''b'') (js ''n'')] \<rparr>
     = [js ''X'', js ''Y'']
   \<and> combineParentOutputsByConnectionOrder (js ''n'')
       \<lparr> nodeOutputs = [(js ''b'', js ''Y''), (js ''a'', js ''X'' @ [0x0D, 0x0A])],
         edgeIndex = createEdgeIndex [mk_edge (js ''a'') (js ''n''), mk_edge (js ''b'') (js ''n'')] \<rparr>
     = [js ''X'', js ''Y'']
   \<and> combineParentOutputsByConnectionOrder (js ''n'')
       \<lparr> nodeOutputs =
           [(js ''b'', [0xFEFF, 0x3000, 0x09] @ js ''Y'' @ [0x200B, 0x2028, 0xA0]),
            (js ''a'', js '' X'' @ [0x0D, 0x0A] @ js ''Z'' @ [0x0D, 0x0D, 0x0A, 0x0A] @ js ''W '' @ [0x0D, 0x0A])],
         edgeIndex = createEdgeIndex
           [mk_edge (js ''a'') (js ''n''), mk_edge (js ''n'') (js ''b''),
            mk_edge (js ''c'') (js ''n''), mk_edge (js ''b'') (js ''n''),
            mk_edge (js ''a'') (js ''n'')] \<rparr>
     = [js ''X'' @ [0x0A] @ js ''Z'' @ [0x0D, 0x0A, 0x0A] @ js ''W'', [],
        js ''Y'' @ [0x200B],
        js ''X'' @ [0x0A] @ js ''Z'' @ [0x0D, 0x0A, 0x0A] @ js ''W'']
   \<and> js_trim
       ([0x09, 0x0A, 0x0B, 0x0C, 0x0D, 0x20, 0xA0, 0x1680, 0x2000, 0x2001, 0x2002, 0x2003,
         0x2004, 0x2005, 0x2006, 0x2007, 0x2008, 0x2009, 0x200A, 0x2028, 0x2029, 0x202F,
         0x205F, 0x3000, 0xFEFF]
        @ [0x200B, 0x180E] @ js ''a b'' @ [0x85, 0x2060]
        @ [0xFEFF, 0x3000, 0x205F, 0x202F, 0x2029, 0x2028, 0x200A, 0x2009, 0x2008, 0x2007,
           0x2006, 0x2005, 0x2004, 0x2003, 0x2002, 0x2001, 0x2000, 0x1680, 0xA0, 0x20,
           0x0D, 0x0C, 0x0B, 0x0A, 0x09])
     = [0x200B, 0x180E] @ js ''a b'' @ [0x85, 0x2060]"
proof (intro conjI)
  show "combineParentOutputsByConnectionOrder nodeId
       \<lparr> nodeOutputs = outputs, edgeIndex = createEdgeIndex edges \<rparr>
     = map (\<lambda>edge. case map_of outputs (source edge) of
                      None \<Rightarrow> []
                    | Some output \<Rightarrow> js_trim (normalize_newlines output))
         (filter (\<lambda>edge. target edge = nodeId) edges)"
    by (simp add: combineParentOutputsByConnectionOrder_def byTarget_createEdgeIndex)
  show "normalize_newlines (pre @ [0x0D, 0x0A] @ post)
     = normalize_newlines pre @ [0x0A] @ normalize_newlines post"
    using normalize_newlines_crlf[of pre post] by simp
  show "\<not> (\<exists>p q. s = p @ [0x0D, 0x0A] @ q) \<longrightarrow> normalize_newlines s = s"
    using normalize_newlines_unchanged[of s] by simp
  show "\<exists>l r. s = l @ js_trim s @ r \<and> list_all js_whitespace l \<and> list_all js_whitespace r"
    by (rule js_trim_decomp)
  show "js_trim s = []
      \<or> \<not> js_whitespace (hd (js_trim s)) \<and> \<not> js_whitespace (last (js_trim s))"
    using js_trim_ends[of s] by blast
  show "combineParentOutputsByConnectionOrder (js ''n'')
       \<lparr> nodeOutputs = [(js ''a'', js ''X'' @ [0x0D, 0x0A]), (js ''b'', js ''Y'')],
         edgeIndex = createEdgeIndex [mk_edge (js ''a'') (js ''n''), mk_edge (js ''b'') (js ''n'')] \<rparr>
     = [js ''X'', js ''Y'']"
    by code_simp
  show "combineParentOutputsByConnectionOrder (js ''n'')
       \<lparr> nodeOutputs = [(js ''b'', js ''Y''), (js ''a'', js ''X'' @ [0x0D, 0x0A])],
         edgeIndex = createEdgeIndex [mk_edge (js ''a'') (js ''n''), mk_edge (js ''b'') (js ''n'')] \<rparr>
     = [js ''X'', js ''Y'']"
    by code_simp
  show "combineParentOutputsByConnectionOrder (js ''n'')
       \<lparr> nodeOutputs =
           [(js ''b'', [0xFEFF, 0x3000, 0x09] @ js ''Y'' @ [0x200B, 0x2028, 0xA0]),
            (js ''a'', js '' X'' @ [0x0D, 0x0A] @ js ''Z'' @ [0x0D, 0x0D, 0x0A, 0x0A] @ js ''W '' @ [0x0D, 0x0A])],
         edgeIndex = createEdgeIndex
           [mk_edge (js ''a'') (js ''n''), mk_edge (js ''n'') (js ''b''),
            mk_edge (js ''c'') (js ''n''), mk_edge (js ''b'') (js ''n''),
            mk_edge (js ''a'') (js ''n'')] \<rparr>
     = [js ''X'' @ [0x0A] @ js ''Z'' @ [0x0D, 0x0A, 0x0A] @ js ''W'', [],
        js ''Y'' @ [0x200B],
        js ''X'' @ [0x0A] @ js ''Z'' @ [0x0D, 0x0A, 0x0A] @ js ''W'']"
    by code_simp
  show "js_trim
       ([0x09, 0x0A, 0x0B, 0x0C, 0x0D, 0x20, 0xA0, 0x1680, 0x2000, 0x2001, 0x2002, 0x2003,
         0x2004, 0x2005, 0x2006, 0x2007, 0x2008, 0x2009, 0x200A, 0x2028, 0x2029, 0x202F,
         0x205F, 0x3000, 0xFEFF]
        @ [0x200B, 0x180E] @ js ''a b'' @ [0x85, 0x2060]
        @ [0xFEFF, 0x3000, 0x205F, 0x202F, 0x2029, 0x2028, 0x200A, 0x2009, 0x2008, 0x2007,
           0x2006, 0x2005, 0x2004, 0x2003, 0x2002, 0x2001, 0x2000, 0x1680, 0xA0, 0x20,
           0x0D, 0x0C, 0x0B, 0x0A, 0x09])
     = [0x200B, 0x180E] @ js ''a b'' @ [0x85, 0x2060]"
    by code_simp
qed

theorem combineParentOutputs_in_edge_order_witness:
  "\<not> (\<exists>p q. js '' a b'' @ [0x0D] = p @ [0x0D, 0x0A] @ q)
   \<and> normalize_newlines (js '' a b'' @ [0x0D]) = js '' a b'' @ [0x0D]
   \<and> js_trim (normalize_newlines (js '' a b'' @ [0x0D])) = js ''a b''
   \<and> normalize_newlines (js ''a'' @ [0x0D, 0x0A] @ js ''b'') = js ''a'' @ [0x0A] @ js ''b''"
proof -
  let ?s = "js '' a b'' @ [0x0D]"
  have h: "\<not> (\<exists>p q. ?s = p @ [0x0D, 0x0A] @ q)"
  proof
    assume "\<exists>p q. ?s = p @ [0x0D, 0x0A] @ q"
    then obtain p q where "?s = p @ [0x0D, 0x0A] @ q" by blast
    then have "set ?s = set (p @ [0x0D, 0x0A] @ q)" by (rule arg_cong)
    then have "(0x0A :: code_unit) \<in> set ?s" by simp
    then show False by simp
  qed
  have a: "normalize_newlines (js ''a'') = js ''a''" and b: "normalize_newlines (js ''b'') = js ''b''"
    by simp_all
  from combineParentOutputs_in_edge_order[of _ _ _ "js ''a''" "js ''b''" ?s] h
  have n: "normalize_newlines ?s = ?s"
    and c: "normalize_newlines (js ''a'' @ [0x0D, 0x0A] @ js ''b'')
       = normalize_newlines (js ''a'') @ [0x0A] @ normalize_newlines (js ''b'')"
    by blast+
  have t: "js_trim ?s = js ''a b''" by code_simp
  from h n t c a b show ?thesis by simp
qed

section \<open>The home directory in a command\<close>

text \<open>
  The replacement of \<open>~/\<close> after a white space by the home directory, and what a \<open>$\<close> in
  the home directory stands for in the template.
\<close>

lemma expand_home_examples:
  "expand_home (js ''/home/u'') (js ''/'') (js ''ls ~/x ~/y'') = js ''ls /home/u/x /home/u/y''"
  "expand_home (js ''/home/u'') (js ''/'') (js ''ls'' @ [0x09] @ js ''~/x~/y ~'') = js ''ls /home/u/x~/y ~''"
  "expand_home (js ''/h$$'') (js ''/'') (js ''ls ~/x'') = js ''ls /h$/x''"
  "expand_home (js ''/h$&'') (js ''/'') (js ''ls ~/x'') = js ''ls /h ~//x''"
  "expand_home (js ''/h$1'') (js ''/'') (js ''ls ~/x'') = js ''ls /h ~//x''"
  "expand_home (js ''/h$10'') (js ''/'') (js ''ls ~/x'') = js ''ls /h ~/0/x''"
  "expand_home (js ''/h$01'') (js ''/'') (js ''ls ~/x'') = js ''ls /h ~//x''"
  "expand_home (js ''/h$00'') (js ''/'') (js ''ls ~/x'') = js ''ls /h$00/x''"
  "expand_home (js ''/h$2'') (js ''/'') (js ''ls ~/x'') = js ''ls /h$2/x''"
  "expand_home (js ''/h$`'') (js ''/'') (js ''ls ~/x'') = js ''ls /hls/x''"
  "expand_home (js ''/h'' @ [0x24, 0x27]) (js ''/'') (js ''ls ~/x'') = js ''ls /hx/x''"
  "expand_home (js ''/h$<a>'') (js ''/'') (js ''ls ~/x'') = js ''ls /h$<a>/x''"
  "expand_home (js ''/h$'') (js ''/'') (js ''ls ~/x'') = js ''ls /h$/x''"
  by code_simp+

section \<open>The denylist and the size ceiling\<close>

text \<open>
  C1 fails on the code. The node's command is \<open>echo hi\<close>, the node needs approval, and
  the approval handler returns the replacement \<open>sudo rm -rf /\<close>, which starts with the
  denylisted prefix \<open>sudo\<close>. The denylist test reads \<open>convertQuotes\<close>, the command before
  approval, so the replacement is handed to the shell.
\<close>

theorem replacement_command_is_not_checked:
  "list_ex (\<lambda>cmd. js_startsWith (js ''sudo rm -rf /'') cmd) commandsNotAllowed
   \<and> fst (executeCLINode (example_env (Some (js ''sudo rm -rf /'')) (Inr (js ''done'')) (completes (js ''hi'')))
            (needing_approval (mk_node (js ''n'') CLI (Some (js ''echo hi'')))) (initial_state [] ()))
       = Inr (js ''done'')
   \<and> trace (snd (executeCLINode (example_env (Some (js ''sudo rm -rf /'')) (Inr (js ''done'')) (completes (js ''hi'')))
            (needing_approval (mk_node (js ''n'') CLI (Some (js ''echo hi'')))) (initial_state [] ())))
       = [ExecutionStarted,
          NodeExecutionStatus (js ''n'') PendingApproval (Some (js ''echo hi'')),
          ApprovalRequested (js ''n''),
          ShellExecute (js ''n'') (js ''sudo rm -rf /'')]"
  by code_simp

text \<open>A response of 1,000,001 characters.\<close>

definition big_response :: js_string where
  "big_response = replicate 1000001 (0x61)"

lemma length_big_response: "length big_response = 1000001"
  by (simp add: big_response_def)

text \<open>
  C6 fails on the code. The size test of a \<open>change\<close> message reads the text accumulated
  before the message, so a response that passes the ceiling with its last \<open>change\<close>
  message is resolved: here one message of 1,000,001 characters, then \<open>complete\<close>.
\<close>

theorem oversized_response_is_resolved:
  "length big_response = 1000001
   \<and> race (completes big_response) = Inr big_response
   \<and> fst (executeLLMNode (example_env None (Inr (js ''out'')) (completes big_response))
            (mk_node (js ''l'') LLM (Some (js ''p''))) (initial_state [] ()))
       = Inr big_response"
proof (intro conjI)
  show "length big_response = 1000001" by (rule length_big_response)
  show r: "race (completes big_response) = Inr big_response"
    by (simp add: race_def completes_def)
  show "fst (executeLLMNode (example_env None (Inr (js ''out'')) (completes big_response))
            (mk_node (js ''l'') LLM (Some (js ''p''))) (initial_state [] ()))
       = Inr big_response"
    by (simp add: executeLLMNode_def mk_node_def example_env_def Let_def r)
qed

end
